theory Spec2Isabelle
  imports Complex_Main "HOL-Library.AList"
begin

section \<open>Data model of \<open>python-scripts/csAnalyze.py\<close>\<close>

text \<open>
  The parsed data is a dictionary \<open>{"scans": {node: [scan, ...]}, "startTimestamp": t,
  "endTimestamp": t}\<close>; a scan is \<open>{"address": device, "time": t, "rssi": r}\<close>.
  Dictionaries are association lists with pairwise distinct keys, kept in insertion
  order: \<open>map_of\<close> is the lookup, \<open>AList.update\<close> the assignment \<open>d[k] = v\<close> (in place
  for a known key, at the end for a new one). The order in which the interpreter
  enumerates the keys of a dictionary is not fixed by the language the script is written
  for; the statements below about values do not depend on it, but for the float sums of
  \<open>getPathPerDevice\<close>, which are taken in the order of the enumeration.

  Timestamps and the other float quantities are modelled by rational numbers (every
  finite float is one). Up to \<open>getAverageRssiPerDevicePerNode\<close> every branch is decided
  by a comparison of integers and timestamps, which is exact, and the model keeps the
  stored values exact: a stored quotient is the exact quotient, which the float division
  rounds. \<open>getPathPerDevice\<close> decides a branch by comparing a float sum with \<open>1.0\<close>, so
  its model computes with the float operations (see the subsection on float arithmetic).
  The only non-finite float the script produces itself is the \<open>NaN\<close> it stores in a
  path, which is a separate constructor of \<open>coord\<close>. The rssi of a scan is an integer.
\<close>

type_synonym ('k, 'v) dict = "('k \<times> 'v) list"

record entry =
  time :: rat
  rssi :: int

record scan = entry +
  address :: string

text \<open>The keys \<open>"startTimestamp"\<close> and \<open>"endTimestamp"\<close>, shared by the parsed data and by
  the result of \<open>getTimedMeasurements\<close>.\<close>

record stamped =
  startTimestamp :: rat
  endTimestamp :: rat

record dataset = stamped +
  scans :: "(string, scan list) dict"

datatype error = ValueError | KeyError string | IndexError | ZeroDivisionError

subsection \<open>The builtins \<open>int\<close> and \<open>range\<close>\<close>

text \<open>\<open>int(x)\<close> on a float truncates towards zero.\<close>

definition py_int :: "rat \<Rightarrow> int" where
  "py_int x = (if 0 \<le> x then \<lfloor>x\<rfloor> else \<lceil>x\<rceil>)"

text \<open>
  \<open>range(start, stop, step)\<close>: ascending for a positive step, descending for a negative
  one, \<open>ValueError\<close> for step zero.
\<close>

function range_up :: "int \<Rightarrow> int \<Rightarrow> int \<Rightarrow> int list" where
  "range_up i stop step =
     (if 0 < step \<and> i < stop then i # range_up (i + step) stop step else [])"
  by pat_completeness auto
termination
  by (relation "measure (\<lambda>(i, stop, step). nat (stop - i))") auto

function range_down :: "int \<Rightarrow> int \<Rightarrow> int \<Rightarrow> int list" where
  "range_down i stop step =
     (if step < 0 \<and> stop < i then i # range_down (i + step) stop step else [])"
  by pat_completeness auto
termination
  by (relation "measure (\<lambda>(i, stop, step). nat (i - stop))") auto

declare range_up.simps [simp del] range_down.simps [simp del]

definition py_range :: "int \<Rightarrow> int \<Rightarrow> int \<Rightarrow> error + int list" where
  "py_range start stop step =
     (if step = 0 then Inl ValueError
      else if 0 < step then Inr (range_up start stop step)
      else Inr (range_down start stop step))"

text \<open>
  Line 61 and line 99, the same expression in both aggregation functions:
  \<open>range(int(startTimestamp), int(endTimestamp)-windowSize+1, stepSize)\<close>.
\<close>

definition startTimes_of :: "dataset \<Rightarrow> int \<Rightarrow> int \<Rightarrow> error + int list" where
  "startTimes_of data windowSize stepSize =
     py_range (py_int (startTimestamp data)) (py_int (endTimestamp data) - windowSize + 1) stepSize"

subsection \<open>\<open>getScansPerDevicePerNode\<close>\<close>

record index_result =
  scansPerDev :: "(string, (string, entry list) dict) dict"
  minRssi :: int
  maxRssi :: int

text \<open>The body of the inner loop, lines 26 to 40, for one scan of the list of node \<open>nodeAddr\<close>.\<close>

definition add_scan :: "string \<Rightarrow> scan \<Rightarrow> index_result \<Rightarrow> index_result" where
  "add_scan nodeAddr sc st =
     (let devAddr = address sc;
          r = rssi sc;
          en = \<lparr>time = time sc, rssi = r\<rparr>;
          perNode = (case map_of (scansPerDev st) devAddr of None \<Rightarrow> [] | Some m \<Rightarrow> m);
          perNode' = (case map_of perNode nodeAddr of
                        None \<Rightarrow> AList.update nodeAddr [en] perNode
                      | Some es \<Rightarrow> AList.update nodeAddr (es @ [en]) perNode)
      in \<lparr>scansPerDev = AList.update devAddr perNode' (scansPerDev st),
          minRssi = (if r < minRssi st then r else minRssi st),
          maxRssi = (if r > maxRssi st then r else maxRssi st)\<rparr>)"

definition getScansPerDevicePerNode :: "dataset \<Rightarrow> index_result" where
  "getScansPerDevicePerNode data =
     fold (\<lambda>(nodeAddr, ss) st. fold (add_scan nodeAddr) ss st) (scans data)
       \<lparr>scansPerDev = [], minRssi = 127, maxRssi = - 127\<rparr>"

subsection \<open>\<open>getFrequencyPerDevicePerNode\<close>\<close>

text \<open>The key \<open>"startTimes"\<close>, shared by the results of the three functions below.\<close>

record bucketed =
  startTimes :: "int list"

record frequency_result = bucketed +
  numScansPerDev :: "(string, (string, rat list) dict) dict"

text \<open>The test of lines 74 and 112:
  \<open>startTimes[tInd] <= timestamp < startTimes[tInd]+windowSize\<close>. Every \<open>tInd\<close> it is
  called with comes from a \<open>range\<close> bounded by \<open>len(startTimes)\<close>.\<close>

definition inWindow :: "int list \<Rightarrow> int \<Rightarrow> nat \<Rightarrow> rat \<Rightarrow> bool" where
  "inWindow sts windowSize tInd timestamp \<longleftrightarrow>
     of_int (sts ! tInd) \<le> timestamp \<and> timestamp < of_int (sts ! tInd + windowSize)"

definition fastNodes :: "string list" where
  "fastNodes = [''E8:00:93:4E:7B:D9'', ''F5:A7:4B:49:8C:7D'', ''FE:04:85:F9:8F:E9'']"

text \<open>\<open>xs[-1] += 1.0\<close> and \<open>xs[-1] /= 6.0\<close>; the list has just been created with one
  element or extended by one in the same iteration (lines 68 to 71), so index \<open>-1\<close>
  exists.\<close>

definition incr_last :: "rat list \<Rightarrow> rat list" where
  "incr_last xs = xs[length xs - 1 := last xs + 1]"

definition div_last :: "rat list \<Rightarrow> rat list" where
  "div_last xs = xs[length xs - 1 := last xs / 6]"

text \<open>Lines 68 to 78, for one bucket index and one node of the device.\<close>

definition freq_node ::
  "int list \<Rightarrow> int \<Rightarrow> nat \<Rightarrow> string \<times> entry list \<Rightarrow> (string, rat list) dict \<Rightarrow> (string, rat list) dict" where
  "freq_node sts windowSize tInd = (\<lambda>(nodeAddr, es) m.
     let xs0 = (case map_of m nodeAddr of None \<Rightarrow> [0] | Some xs \<Rightarrow> xs @ [0]);
         xs1 = fold (\<lambda>sc xs. if inWindow sts windowSize tInd (time sc) then incr_last xs else xs) es xs0;
         xs2 = (if nodeAddr \<in> set fastNodes then div_last xs1 else xs1)
     in AList.update nodeAddr xs2 m)"

text \<open>Lines 64 to 78, for one device: \<open>tInd\<close> runs over \<open>range(1,len(startTimes))\<close>.\<close>

definition freq_dev ::
  "int list \<Rightarrow> int \<Rightarrow> string \<times> (string, entry list) dict \<Rightarrow>
     (string, (string, rat list) dict) dict \<Rightarrow> (string, (string, rat list) dict) dict" where
  "freq_dev sts windowSize = (\<lambda>(devAddr, nodes) numScans.
     let m0 = (case map_of numScans devAddr of None \<Rightarrow> [] | Some m \<Rightarrow> m);
         m = fold (\<lambda>tInd m. fold (freq_node sts windowSize tInd) nodes m) [1..<length sts] m0
     in AList.update devAddr m numScans)"

definition getFrequencyPerDevicePerNode :: "dataset \<Rightarrow> int \<Rightarrow> int \<Rightarrow> error + frequency_result" where
  "getFrequencyPerDevicePerNode data windowSize stepSize =
     (let data2 = getScansPerDevicePerNode data
      in case startTimes_of data windowSize stepSize of
           Inl e \<Rightarrow> Inl e
         | Inr sts \<Rightarrow>
             Inr \<lparr>startTimes = sts,
                  numScansPerDev = fold (freq_dev sts windowSize) (scansPerDev data2) []\<rparr>)"

subsection \<open>\<open>getAverageRssiPerDevicePerNode\<close>\<close>

record average_result = bucketed +
  avgRssiPerDev :: "(string, (string, rat list) dict) dict"

text \<open>Lines 107 to 114: the pair \<open>(rssiSum, numScans)\<close> after the loop over the scans.\<close>

definition window_sum :: "int list \<Rightarrow> int \<Rightarrow> nat \<Rightarrow> entry list \<Rightarrow> rat \<times> nat" where
  "window_sum sts windowSize tInd es =
     fold (\<lambda>sc (rssiSum, numScans).
             if inWindow sts windowSize tInd (time sc)
             then (rssiSum + of_int (rssi sc), numScans + 1)
             else (rssiSum, numScans)) es (0, 0)"

text \<open>Lines 107 to 116. The list assigned to at index \<open>tInd\<close> was stored under
  \<open>nodeAddr\<close> by line 104 with \<open>len(startTimes)\<close> elements.\<close>

definition avg_node ::
  "int list \<Rightarrow> int \<Rightarrow> nat \<Rightarrow> string \<times> entry list \<Rightarrow> (string, rat list) dict \<Rightarrow> (string, rat list) dict" where
  "avg_node sts windowSize tInd = (\<lambda>(nodeAddr, es) m.
     case window_sum sts windowSize tInd es of
       (rssiSum, numScans) \<Rightarrow>
         if numScans > 0
         then (case map_of m nodeAddr of
                 None \<Rightarrow> m
               | Some xs \<Rightarrow> AList.update nodeAddr (xs[tInd := rssiSum / of_nat numScans]) m)
         else m)"

definition avg_dev ::
  "int list \<Rightarrow> int \<Rightarrow> string \<times> (string, entry list) dict \<Rightarrow>
     (string, (string, rat list) dict) dict \<Rightarrow> (string, (string, rat list) dict) dict" where
  "avg_dev sts windowSize = (\<lambda>(devAddr, nodes) avgRssi.
     let m0 = fold (\<lambda>(nodeAddr, es) m. AList.update nodeAddr (replicate (length sts) (- 105)) m) nodes [];
         m = fold (\<lambda>tInd m. fold (avg_node sts windowSize tInd) nodes m) [0..<length sts] m0
     in AList.update devAddr m avgRssi)"

definition getAverageRssiPerDevicePerNode :: "dataset \<Rightarrow> int \<Rightarrow> int \<Rightarrow> error + average_result" where
  "getAverageRssiPerDevicePerNode data windowSize stepSize =
     (let data2 = getScansPerDevicePerNode data
      in case startTimes_of data windowSize stepSize of
           Inl e \<Rightarrow> Inl e
         | Inr sts \<Rightarrow>
             Inr \<lparr>startTimes = sts,
                  avgRssiPerDev = fold (avg_dev sts windowSize) (scansPerDev data2) []\<rparr>)"

subsection \<open>Float arithmetic\<close>

text \<open>
  A Python float is an IEEE 754 binary64 number, and every operation on floats returns
  the float nearest to the exact result, the one with the even significand when two are
  equally near. \<open>round_even\<close> is that rounding to an integer, \<open>pow2 e\<close> the power of
  two with exponent \<open>e\<close>, \<open>float_exp x\<close> the exponent \<open>e\<close> of a positive \<open>x\<close>, with
  \<open>pow2 e \<le> x < pow2 (e + 1)\<close>, and \<open>double_round x\<close> the nearest float: the nearest
  multiple of \<open>pow2 (e - 52)\<close>, with 53 significant bits, or of \<open>pow2 (- 1074)\<close> for a
  subnormal. A result too large for a float (an overflow to infinity) has no value
  here; rssi values, which fit a signed byte, stay far from it.
\<close>

definition round_even :: "rat \<Rightarrow> int" where
  "round_even r =
     (let f = \<lfloor>r\<rfloor>; d = r - of_int f
      in if d < 1 / 2 then f else if 1 / 2 < d then f + 1 else if even f then f else f + 1)"

definition pow2 :: "int \<Rightarrow> rat" where
  "pow2 e = (if 0 \<le> e then 2 ^ nat e else 1 / 2 ^ nat (- e))"

function float_exp :: "rat \<Rightarrow> int" where
  "float_exp x =
     (if x \<le> 0 then 0
      else if 2 \<le> x then float_exp (x / 2) + 1
      else if x < 1 then float_exp (x * 2) - 1
      else 0)"
  by pat_completeness auto
termination
proof (relation "measure (\<lambda>x. if 1 \<le> x then nat \<lfloor>x\<rfloor> else nat \<lfloor>1 / x\<rfloor> + 1)")
  show "wf (measure (\<lambda>x :: rat. if 1 \<le> x then nat \<lfloor>x\<rfloor> else nat \<lfloor>1 / x\<rfloor> + 1))" by simp
next
  fix x :: rat
  assume "\<not> x \<le> 0" "2 \<le> x"
  then have "\<lfloor>x / 2\<rfloor> \<le> \<lfloor>x - 1\<rfloor>" by (intro floor_mono) simp
  then have a: "\<lfloor>x / 2\<rfloor> < \<lfloor>x\<rfloor>" by simp
  have "0 \<le> x / 2" using \<open>2 \<le> x\<close> by simp
  then have b: "0 \<le> \<lfloor>x / 2\<rfloor>" by (simp only: zero_le_floor)
  have "nat \<lfloor>x / 2\<rfloor> < nat \<lfloor>x\<rfloor>" using a b by linarith
  then show "(x / 2, x) \<in> measure (\<lambda>x. if 1 \<le> x then nat \<lfloor>x\<rfloor> else nat \<lfloor>1 / x\<rfloor> + 1)"
    using \<open>2 \<le> x\<close> by simp
next
  fix x :: rat
  assume pos: "\<not> x \<le> 0" and "\<not> 2 \<le> x" and small: "x < 1"
  have x0: "0 < x" using pos by simp
  have inv: "1 < 1 / x" using x0 small by simp
  show "(x * 2, x) \<in> measure (\<lambda>x. if 1 \<le> x then nat \<lfloor>x\<rfloor> else nat \<lfloor>1 / x\<rfloor> + 1)"
  proof (cases "1 \<le> x * 2")
    case True
    have "x * 2 < 2" using small by simp
    then have a: "\<lfloor>x * 2\<rfloor> < 2" by (simp add: floor_less_iff)
    have b: "1 \<le> \<lfloor>1 / x\<rfloor>" using inv by (simp add: le_floor_iff)
    have "nat \<lfloor>x * 2\<rfloor> < nat \<lfloor>1 / x\<rfloor> + 1" using a b by linarith
    then show ?thesis using True small by simp
  next
    case False
    then have big: "2 \<le> 1 / x" using x0 by (simp add: field_simps)
    define y where "y = 1 / x"
    have y: "2 \<le> y" "1 / (x * 2) = y / 2" using big by (simp_all add: y_def)
    have "\<lfloor>y / 2\<rfloor> \<le> \<lfloor>y - 1\<rfloor>" using y(1) by (intro floor_mono) simp
    then have a: "\<lfloor>y / 2\<rfloor> < \<lfloor>y\<rfloor>" by simp
    have "0 \<le> y / 2" using y(1) by simp
    then have b: "0 \<le> \<lfloor>y / 2\<rfloor>" by (simp only: zero_le_floor)
    have "nat \<lfloor>y / 2\<rfloor> < nat \<lfloor>y\<rfloor>" using a b by linarith
    then have "nat \<lfloor>1 / (x * 2)\<rfloor> + 1 < nat \<lfloor>1 / x\<rfloor> + 1"
      unfolding y(2) y_def by simp
    then show ?thesis using False small by simp
  qed
qed

declare float_exp.simps [simp del]

definition double_round :: "rat \<Rightarrow> rat" where
  "double_round x =
     (if x = 0 then 0
      else (let q = pow2 (max (float_exp \<bar>x\<bar>) (- 1022) - 52)
            in of_int (round_even (x / q)) * q))"

text \<open>
  The float operations of \<open>getPathPerDevice\<close>, which decides a branch by a float sum
  (line 159): \<open>fl_of\<close> gives the float that stands for an exact value, \<open>fl_add\<close>,
  \<open>fl_mul\<close> and \<open>fl_div\<close> are \<open>+\<close>, \<open>*\<close> and \<open>/\<close> on floats, and \<open>fl_sq\<close> is \<open>x ** 2\<close>.
  The model of \<open>getPathPerDevice\<close> takes them as a parameter, so that what is proved of
  it for every \<open>float_ops\<close> holds for the arithmetic of the interpreter, whichever way
  its C library rounds. \<open>double_ops\<close> are the correctly rounded operations.
\<close>

record float_ops =
  fl_of :: "rat \<Rightarrow> rat"
  fl_add :: "rat \<Rightarrow> rat \<Rightarrow> rat"
  fl_mul :: "rat \<Rightarrow> rat \<Rightarrow> rat"
  fl_div :: "rat \<Rightarrow> rat \<Rightarrow> rat"
  fl_sq :: "rat \<Rightarrow> rat"

definition double_ops :: float_ops where
  "double_ops =
     \<lparr>fl_of = double_round,
      fl_add = (\<lambda>a b. double_round (a + b)),
      fl_mul = (\<lambda>a b. double_round (a * b)),
      fl_div = (\<lambda>a b. double_round (a / b)),
      fl_sq = (\<lambda>a. double_round (a * a))\<rparr>"

subsection \<open>\<open>getPathPerDevice\<close>\<close>

text \<open>An element of a path list: a finite float, or the \<open>float("NaN")\<close> of lines 160 and
  161. Adding to \<open>NaN\<close> gives \<open>NaN\<close>.\<close>

datatype coord = Num rat | NaN

fun coord_add :: "float_ops \<Rightarrow> coord \<Rightarrow> rat \<Rightarrow> coord" where
  "coord_add fo (Num a) b = Num (fl_add fo a b)"
| "coord_add fo NaN b = NaN"

record location =
  loc_x :: rat
  loc_y :: rat

record path =
  path_x :: "coord list"
  path_y :: "coord list"

record path_result = bucketed +
  pathPerDevice :: "(string, path) dict"

text \<open>A loop whose body can raise: the first error ends it.\<close>

primrec foldE :: "('a \<Rightarrow> 's \<Rightarrow> error + 's) \<Rightarrow> 'a list \<Rightarrow> 's \<Rightarrow> error + 's" where
  "foldE f [] s = Inr s"
| "foldE f (x # xs) s = (case f x s of Inl e \<Rightarrow> Inl e | Inr s' \<Rightarrow> foldE f xs s')"

text \<open>Lines 151 and 152. The node addresses come from \<open>numScans[dev]\<close>, the lists from
  \<open>avgRssi\<close>: a missing key or a short list raises. The element read is the float that
  line 104 or line 116 stored: \<open>fl_of\<close> of the exact value that the model of
  \<open>getAverageRssiPerDevicePerNode\<close> keeps. \<open>weightSum\<close> is the float sum in the order of
  the loop.\<close>

definition weight_step ::
  "float_ops \<Rightarrow> (string, (string, rat list) dict) dict \<Rightarrow> string \<Rightarrow> nat \<Rightarrow> string \<Rightarrow>
     (string, rat) dict \<times> rat \<Rightarrow> error + ((string, rat) dict \<times> rat)" where
  "weight_step fo avgRssi dev tInd nodeAddr = (\<lambda>(weights, weightSum).
     case map_of avgRssi dev of
       None \<Rightarrow> Inl (KeyError dev)
     | Some m \<Rightarrow>
         (case map_of m nodeAddr of
            None \<Rightarrow> Inl (KeyError nodeAddr)
          | Some xs \<Rightarrow>
              if tInd < length xs
              then (let w = fl_sq fo (fl_add fo (fl_of fo (xs ! tInd)) 105)
                    in Inr (AList.update nodeAddr w weights, fl_add fo weightSum w))
              else Inl IndexError))"

text \<open>Lines 165 to 167. A float division by zero raises. \<open>pathX\<close> and \<open>pathY\<close> have
  \<open>len(startTimes)\<close> elements and \<open>tInd\<close> is below that.\<close>

definition centroid_step ::
  "float_ops \<Rightarrow> (string, rat) dict \<Rightarrow> rat \<Rightarrow> (string, location) dict \<Rightarrow> nat \<Rightarrow> string \<Rightarrow>
     coord list \<times> coord list \<Rightarrow> error + (coord list \<times> coord list)" where
  "centroid_step fo weights weightSum nodeLocations tInd nodeAddr = (\<lambda>(pathX, pathY).
     case map_of weights nodeAddr of
       None \<Rightarrow> Inl (KeyError nodeAddr)
     | Some w \<Rightarrow>
         if weightSum = 0 then Inl ZeroDivisionError
         else
           (let weight = fl_div fo w weightSum
            in case map_of nodeLocations nodeAddr of
                 None \<Rightarrow> Inl (KeyError nodeAddr)
               | Some loc \<Rightarrow>
                   Inr (pathX[tInd := coord_add fo (pathX ! tInd) (fl_mul fo weight (loc_x loc))],
                        pathY[tInd := coord_add fo (pathY ! tInd) (fl_mul fo weight (loc_y loc))])))"

text \<open>Lines 147 to 167, one bucket index of one device; \<open>nodes\<close> are the keys of
  \<open>numScans[dev]\<close>. The test of line 159 is on the float \<open>weightSum\<close>.\<close>

definition path_bucket ::
  "float_ops \<Rightarrow> (string, (string, rat list) dict) dict \<Rightarrow> (string, location) dict \<Rightarrow> string \<Rightarrow>
     string list \<Rightarrow> nat \<Rightarrow> coord list \<times> coord list \<Rightarrow> error + (coord list \<times> coord list)" where
  "path_bucket fo avgRssi nodeLocations dev nodes tInd = (\<lambda>(pathX, pathY).
     case foldE (weight_step fo avgRssi dev tInd) nodes ([], 0) of
       Inl e \<Rightarrow> Inl e
     | Inr (weights, weightSum) \<Rightarrow>
         if weightSum < 1
         then Inr (pathX[tInd := NaN], pathY[tInd := NaN])
         else foldE (centroid_step fo weights weightSum nodeLocations tInd) nodes (pathX, pathY))"

text \<open>Lines 142 to 167, one device of \<open>numScans\<close>.\<close>

definition path_dev ::
  "float_ops \<Rightarrow> (string, (string, rat list) dict) dict \<Rightarrow> (string, location) dict \<Rightarrow> int list \<Rightarrow>
     string \<times> (string, rat list) dict \<Rightarrow> (string, path) dict \<Rightarrow> error + (string, path) dict" where
  "path_dev fo avgRssi nodeLocations sts = (\<lambda>(dev, m) paths.
     case foldE (path_bucket fo avgRssi nodeLocations dev (map fst m)) [0..<length sts]
            (replicate (length sts) (Num 0), replicate (length sts) (Num 0)) of
       Inl e \<Rightarrow> Inl e
     | Inr (pathX, pathY) \<Rightarrow> Inr (AList.update dev \<lparr>path_x = pathX, path_y = pathY\<rparr> paths))"

definition getPathPerDevice ::
  "float_ops \<Rightarrow> dataset \<Rightarrow> int \<Rightarrow> int \<Rightarrow> (string, location) dict \<Rightarrow> error + path_result" where
  "getPathPerDevice fo data windowSize stepSize nodeLocations =
     (case getFrequencyPerDevicePerNode data windowSize stepSize of
        Inl e \<Rightarrow> Inl e
      | Inr data2 \<Rightarrow>
          (case getAverageRssiPerDevicePerNode data windowSize stepSize of
             Inl e \<Rightarrow> Inl e
           | Inr data3 \<Rightarrow>
               (case foldE (path_dev fo (avgRssiPerDev data3) nodeLocations (startTimes data2))
                       (numScansPerDev data2) [] of
                  Inl e \<Rightarrow> Inl e
                | Inr paths \<Rightarrow> Inr \<lparr>startTimes = startTimes data2, pathPerDevice = paths\<rparr>)))"

subsection \<open>\<open>getTimedMeasurements\<close>\<close>

text \<open>
  The result has the grouped readings under \<open>"data"\<close>. The key of a reading is
  \<open>str(round(entry["time"],1))\<close>, the decimal rendering of a float: it is a parameter
  \<open>timeKey\<close> of the model. The keyword arguments \<open>start\<close> and \<open>end\<close> are optional.
\<close>

record 'k timed_result = stamped +
  data :: "('k, (string, (string, int list) dict) dict) dict"

text \<open>Lines 191 to 209, for one entry of the list of \<open>node\<close>.\<close>

definition timed_step ::
  "rat option \<Rightarrow> rat option \<Rightarrow> (rat \<Rightarrow> 'k) \<Rightarrow> string \<Rightarrow> scan \<Rightarrow> 'k timed_result \<Rightarrow> 'k timed_result" where
  "timed_step kw_start kw_end timeKey node en out =
     (if (case kw_start of None \<Rightarrow> False | Some s \<Rightarrow> time en < s) then out
      else if (case kw_end of None \<Rightarrow> False | Some e \<Rightarrow> time en > e) then out
      else
        (let startT = (if time en < startTimestamp out \<or> startTimestamp out = - 1
                       then time en else startTimestamp out);
             endT = (if time en > endTimestamp out \<or> endTimestamp out = - 1
                     then time en else endTimestamp out);
             timeStamp = timeKey (time en);
             device = address en;
             byNode = (case map_of (data out) timeStamp of None \<Rightarrow> [] | Some m \<Rightarrow> m);
             byDev = (case map_of byNode node of None \<Rightarrow> [] | Some m \<Rightarrow> m);
             rs = (case map_of byDev device of None \<Rightarrow> [] | Some rs \<Rightarrow> rs)
         in \<lparr>startTimestamp = startT, endTimestamp = endT,
             data = AList.update timeStamp
                      (AList.update node (AList.update device (rs @ [rssi en]) byDev) byNode)
                      (data out)\<rparr>))"

definition getTimedMeasurements ::
  "rat option \<Rightarrow> rat option \<Rightarrow> (rat \<Rightarrow> 'k) \<Rightarrow> dataset list \<Rightarrow> 'k timed_result" where
  "getTimedMeasurements kw_start kw_end timeKey ds =
     fold (\<lambda>d out. fold (\<lambda>(node, es) out. fold (timed_step kw_start kw_end timeKey node) es out)
                      (scans d) out)
       ds \<lparr>startTimestamp = - 1, endTimestamp = - 1, data = []\<rparr>"

subsection \<open>The order in which the nested loops visit the scans\<close>

text \<open>\<open>for node in scans: for scan in scans[node]\<close> visits the scans in this order, each
  with the node whose list holds it.\<close>

definition all_scans :: "(string, scan list) dict \<Rightarrow> (string \<times> scan) list" where
  "all_scans sc = concat (map (\<lambda>(nodeAddr, ss). map (Pair nodeAddr) ss) sc)"

subsection \<open>Closed forms used in the statements and proofs\<close>

text \<open>A loop body that assigns to at most one key of a dictionary, the key of the item it visits.\<close>

definition upd_step :: "('k \<Rightarrow> 'a \<Rightarrow> 'v option \<Rightarrow> 'v option) \<Rightarrow> 'k \<times> 'a \<Rightarrow> ('k, 'v) dict \<Rightarrow> ('k, 'v) dict" where
  "upd_step G = (\<lambda>(k, a) m. case G k a (map_of m k) of None \<Rightarrow> m | Some v \<Rightarrow> AList.update k v m)"

text \<open>The list behind \<open>d.get(k, [])\<close>.\<close>

definition olist :: "'a list option \<Rightarrow> 'a list" where
  "olist v = (case v of None \<Rightarrow> [] | Some xs \<Rightarrow> xs)"

text \<open>The list stored for a device and a node in the index, empty when a key is missing.\<close>

definition index_list :: "(string, (string, entry list) dict) dict \<Rightarrow> string \<Rightarrow> string \<Rightarrow> entry list" where
  "index_list spd d n = olist (case map_of spd d of None \<Rightarrow> None | Some m \<Rightarrow> map_of m n)"

text \<open>Keys are distinct at both levels of the index, and no stored mapping or list is empty.\<close>

definition index_inv :: "(string, (string, entry list) dict) dict \<Rightarrow> bool" where
  "index_inv spd \<longleftrightarrow> distinct (map fst spd) \<and>
     (\<forall>d m. map_of spd d = Some m \<longrightarrow> distinct (map fst m) \<and> m \<noteq> [] \<and>
        (\<forall>n es. map_of m n = Some es \<longrightarrow> es \<noteq> []))"

text \<open>The number of scans whose time passes the window test of bucket \<open>tInd\<close>.\<close>

definition count_in :: "int list \<Rightarrow> int \<Rightarrow> nat \<Rightarrow> entry list \<Rightarrow> nat" where
  "count_in sts windowSize tInd es = length (filter (\<lambda>sc. inWindow sts windowSize tInd (time sc)) es)"

text \<open>The frequency of a bucket: the count, divided by six for the three fast nodes.\<close>

definition freq_value :: "int list \<Rightarrow> int \<Rightarrow> string \<Rightarrow> entry list \<Rightarrow> nat \<Rightarrow> rat" where
  "freq_value sts windowSize nodeAddr es tInd =
     (if nodeAddr \<in> set fastNodes then of_nat (count_in sts windowSize tInd es) / 6
      else of_nat (count_in sts windowSize tInd es))"

text \<open>The sum of the rssi values of the scans that pass the window test of bucket \<open>tInd\<close>.\<close>

definition sum_in :: "int list \<Rightarrow> int \<Rightarrow> nat \<Rightarrow> entry list \<Rightarrow> rat" where
  "sum_in sts windowSize tInd es =
     sum_list (map (\<lambda>sc. of_int (rssi sc)) (filter (\<lambda>sc. inWindow sts windowSize tInd (time sc)) es))"

text \<open>The mean rssi of a bucket, or the value \<open>-105\<close> of an empty bucket.\<close>

definition avg_value :: "int list \<Rightarrow> int \<Rightarrow> entry list \<Rightarrow> nat \<Rightarrow> rat" where
  "avg_value sts windowSize es tInd =
     (if count_in sts windowSize tInd es = 0 then - 105
      else sum_in sts windowSize tInd es / of_nat (count_in sts windowSize tInd es))"

text \<open>The assignment of line 116 for one bucket.\<close>

definition bucket_store :: "int list \<Rightarrow> int \<Rightarrow> entry list \<Rightarrow> nat \<Rightarrow> rat list \<Rightarrow> rat list" where
  "bucket_store sts windowSize es tInd xs =
     (if 0 < count_in sts windowSize tInd es then xs[tInd := avg_value sts windowSize es tInd] else xs)"

text \<open>The weight \<open>(avgRssi[dev][nodeAddr][tInd] + 105.0)**2\<close> of a node, read from the mapping \<open>a\<close> of the device.\<close>

definition node_weight :: "float_ops \<Rightarrow> (string, rat list) dict \<Rightarrow> nat \<Rightarrow> string \<Rightarrow> rat" where
  "node_weight fo a tInd n =
     (case map_of a n of None \<Rightarrow> 0 | Some xs \<Rightarrow> fl_sq fo (fl_add fo (fl_of fo (xs ! tInd)) 105))"

text \<open>The value of \<open>weightSum\<close> after the loop of lines 149 to 152: the weights of the nodes
  added one by one, in the order of the list, to the initial 0.\<close>

definition weight_sum :: "float_ops \<Rightarrow> (string, rat list) dict \<Rightarrow> string list \<Rightarrow> nat \<Rightarrow> rat" where
  "weight_sum fo a nodes tInd = fold (\<lambda>n s. fl_add fo s (node_weight fo a tInd n)) nodes 0"

text \<open>The coordinates of a node in \<open>nodeLocations\<close>.\<close>

definition node_x :: "(string, location) dict \<Rightarrow> string \<Rightarrow> rat" where
  "node_x locs n = (case map_of locs n of None \<Rightarrow> 0 | Some l \<Rightarrow> loc_x l)"

definition node_y :: "(string, location) dict \<Rightarrow> string \<Rightarrow> rat" where
  "node_y locs n = (case map_of locs n of None \<Rightarrow> 0 | Some l \<Rightarrow> loc_y l)"

text \<open>The position written for one bucket: \<open>NaN\<close> below total weight 1, else the products
  \<open>(weight / weightSum) * pos\<close> of the nodes added one by one, in the order of the list, to
  the initial 0.\<close>

definition centroid ::
  "float_ops \<Rightarrow> (string, rat list) dict \<Rightarrow> (string \<Rightarrow> rat) \<Rightarrow> string list \<Rightarrow> nat \<Rightarrow> coord" where
  "centroid fo a pos nodes tInd =
     (if weight_sum fo a nodes tInd < 1 then NaN
      else Num (fold (\<lambda>n v. fl_add fo v
                   (fl_mul fo (fl_div fo (node_weight fo a tInd n) (weight_sum fo a nodes tInd)) (pos n)))
                 nodes 0))"

text \<open>Every node of the list has a sequence of \<open>L\<close> averages in the mapping \<open>a\<close>.\<close>

definition avg_covers :: "(string, rat list) dict \<Rightarrow> string list \<Rightarrow> nat \<Rightarrow> bool" where
  "avg_covers a nodes L \<longleftrightarrow> (\<forall>n \<in> set nodes. \<exists>xs. map_of a n = Some xs \<and> length xs = L)"

text \<open>A device reaches line 166 in some bucket while one of its nodes has no location.\<close>

definition dev_fails ::
  "float_ops \<Rightarrow> (string, rat list) dict \<Rightarrow> (string, location) dict \<Rightarrow> string list \<Rightarrow> nat \<Rightarrow> bool" where
  "dev_fails fo a locs nodes L \<longleftrightarrow>
     (\<exists>i < L. \<not> weight_sum fo a nodes i < 1) \<and> (\<exists>n \<in> set nodes. map_of locs n = None)"

text \<open>The error is the \<open>KeyError\<close> of a node of the list that has no location.\<close>

definition missing_in :: "(string, location) dict \<Rightarrow> string list \<Rightarrow> error \<Rightarrow> bool" where
  "missing_in locs nodes e \<longleftrightarrow> (\<exists>n \<in> set nodes. map_of locs n = None \<and> e = KeyError n)"

text \<open>The two path lists of a device.\<close>

definition dev_path ::
  "float_ops \<Rightarrow> (string, rat list) dict \<Rightarrow> (string, location) dict \<Rightarrow> string list \<Rightarrow> nat \<Rightarrow> path" where
  "dev_path fo a locs nodes L =
     \<lparr>path_x = map (centroid fo a (node_x locs) nodes) [0..<L],
      path_y = map (centroid fo a (node_y locs) nodes) [0..<L]\<rparr>"

text \<open>Some device of \<open>numScans\<close> reaches line 166 with a node that has no location.\<close>

definition any_fails ::
  "float_ops \<Rightarrow> (string, (string, rat list) dict) dict \<Rightarrow> (string, (string, rat list) dict) dict \<Rightarrow>
     (string, location) dict \<Rightarrow> nat \<Rightarrow> bool" where
  "any_fails fo numScans avgRssi locs L \<longleftrightarrow>
     (\<exists>(d, m) \<in> set numScans. dev_fails fo (olist (map_of avgRssi d)) locs (map fst m) L)"

text \<open>A time passes the optional bounds \<open>start\<close> and \<open>end\<close>, both inclusive.\<close>

definition accepted :: "rat option \<Rightarrow> rat option \<Rightarrow> rat \<Rightarrow> bool" where
  "accepted kw_start kw_end t \<longleftrightarrow>
     (case kw_start of None \<Rightarrow> True | Some s \<Rightarrow> s \<le> t) \<and>
     (case kw_end of None \<Rightarrow> True | Some e \<Rightarrow> t \<le> e)"

text \<open>The entries of all datasets, in the order in which \<open>getTimedMeasurements\<close> visits them.\<close>

definition all_records :: "dataset list \<Rightarrow> (string \<times> scan) list" where
  "all_records ds = concat (map (\<lambda>d. all_scans (scans d)) ds)"

text \<open>The list stored under a time key, a node and a device, empty when a key is missing.\<close>

definition readings ::
  "('k, (string, (string, int list) dict) dict) dict \<Rightarrow> 'k \<Rightarrow> string \<Rightarrow> string \<Rightarrow> int list" where
  "readings dat k n d =
     olist (case map_of dat k of
              None \<Rightarrow> None
            | Some byNode \<Rightarrow> (case map_of byNode n of None \<Rightarrow> None | Some byDev \<Rightarrow> map_of byDev d))"

section \<open>The bucket sequence\<close>

lemma range_up_length_nth:
  "0 < step \<Longrightarrow>
     (\<forall>i. i < length (range_up a stop step) \<longleftrightarrow> a + int i * step < stop) \<and>
     (\<forall>i < length (range_up a stop step). range_up a stop step ! i = a + int i * step)"
proof (induction a stop step rule: range_up.induct)
  case (1 a stop step)
  show ?case
  proof (cases "a < stop")
    case False
    have "range_up a stop step = []"
      using False by (simp add: range_up.simps)
    moreover have "\<not> a + int i * step < stop" for i
    proof -
      have "0 \<le> int i * step" using "1.prems" by simp
      then show ?thesis using False by linarith
    qed
    ultimately show ?thesis by simp
  next
    case True
    have unf: "range_up a stop step = a # range_up (a + step) stop step"
      using True "1.prems" by (simp add: range_up.simps)
    have ih: "(\<forall>i. i < length (range_up (a + step) stop step) \<longleftrightarrow> a + step + int i * step < stop) \<and>
       (\<forall>i < length (range_up (a + step) stop step).
           range_up (a + step) stop step ! i = a + step + int i * step)"
      using "1.IH" True "1.prems" by simp
    have len: "i < length (range_up a stop step) \<longleftrightarrow> a + int i * step < stop" for i
    proof (cases i)
      case 0
      then show ?thesis using True unf by simp
    next
      case (Suc j)
      then show ?thesis using unf ih by (simp add: algebra_simps)
    qed
    have nth: "range_up a stop step ! i = a + int i * step"
      if "i < length (range_up a stop step)" for i
    proof (cases i)
      case 0
      then show ?thesis using unf by simp
    next
      case (Suc j)
      then show ?thesis using unf ih that by (simp add: algebra_simps)
    qed
    show ?thesis using len nth by blast
  qed
qed


lemma startTimes_of_ascending:
  assumes "0 < stepSize"
  shows "startTimes_of dset windowSize stepSize =
           Inr (range_up (py_int (startTimestamp dset))
                  (py_int (endTimestamp dset) - windowSize + 1) stepSize)"
  using assms by (simp add: startTimes_of_def py_range_def)

text \<open>
  C7 (as amended). For a positive step the bucket sequence is
  \<open>startTimes[i] = int(startTimestamp) + i*stepSize\<close> for exactly the indices \<open>i\<close> with
  \<open>startTimes[i] \<le> int(endTimestamp) - windowSize\<close>, and it is empty when index 0 does
  not satisfy this, where \<open>int\<close> truncates towards zero; for timestamps that are not
  negative this is the floor.
\<close>

theorem startTimes_of_truncating:
  assumes "0 < stepSize"
  shows "\<exists>sts. startTimes_of dset windowSize stepSize = Inr sts \<and>
           (\<forall>i. i < length sts \<longleftrightarrow>
                  py_int (startTimestamp dset) + int i * stepSize
                    \<le> py_int (endTimestamp dset) - windowSize) \<and>
           (\<forall>i < length sts. sts ! i = py_int (startTimestamp dset) + int i * stepSize) \<and>
           (sts = [] \<longleftrightarrow> py_int (endTimestamp dset) - windowSize < py_int (startTimestamp dset)) \<and>
           (0 \<le> startTimestamp dset \<longrightarrow> py_int (startTimestamp dset) = \<lfloor>startTimestamp dset\<rfloor>) \<and>
           (0 \<le> endTimestamp dset \<longrightarrow> py_int (endTimestamp dset) = \<lfloor>endTimestamp dset\<rfloor>)"
proof -
  define a where "a = py_int (startTimestamp dset)"
  define b where "b = py_int (endTimestamp dset) - windowSize + 1"
  define sts where "sts = range_up a b stepSize"
  have eq: "startTimes_of dset windowSize stepSize = Inr sts"
    using startTimes_of_ascending [OF assms] by (simp add: sts_def a_def b_def)
  have rng: "(\<forall>i. i < length sts \<longleftrightarrow> a + int i * stepSize < b) \<and>
             (\<forall>i < length sts. sts ! i = a + int i * stepSize)"
    unfolding sts_def using range_up_length_nth [OF assms] by blast
  have len: "i < length sts \<longleftrightarrow> a + int i * stepSize \<le> py_int (endTimestamp dset) - windowSize" for i
  proof -
    have "i < length sts \<longleftrightarrow> a + int i * stepSize < b" using rng by blast
    then show ?thesis unfolding b_def by linarith
  qed
  have emp: "sts = [] \<longleftrightarrow> py_int (endTimestamp dset) - windowSize < a"
  proof -
    have "sts = [] \<longleftrightarrow> \<not> 0 < length sts" by simp
    also have "\<dots> \<longleftrightarrow> \<not> a + int 0 * stepSize \<le> py_int (endTimestamp dset) - windowSize"
      using len [of 0] by blast
    finally show ?thesis by (simp add: not_le)
  qed
  have fl: "0 \<le> x \<longrightarrow> py_int x = \<lfloor>x\<rfloor>" for x
    by (simp add: py_int_def)
  show ?thesis
    using eq len rng emp fl unfolding a_def by blast
qed

theorem startTimes_of_truncating_witness:
  "\<exists>sts. startTimes_of \<lparr>startTimestamp = 0, endTimestamp = 65, scans = []\<rparr> 20 20 = Inr sts \<and>
         (\<forall>i. i < length sts \<longleftrightarrow> 0 + int i * 20 \<le> (65::int) - 20) \<and>
         (\<forall>i < length sts. sts ! i = 0 + int i * 20) \<and> sts \<noteq> []"
proof -
  have pos: "(0::int) < 20" by simp
  have s: "py_int 0 = 0" and e: "py_int 65 = 65"
    by (simp_all add: py_int_def)
  show ?thesis
    using startTimes_of_truncating [OF pos, of "\<lparr>startTimestamp = 0, endTimestamp = 65, scans = []\<rparr>" 20]
    by (simp add: s e)
qed

text \<open>
  C7 as stated fails for a negative start time that is not an integer: with
  \<open>startTimestamp = -1/2\<close>, \<open>endTimestamp = 20\<close>, window 20 and step 20 the code starts
  the only bucket at \<open>int(-0.5) = 0\<close>, while \<open>floor(-0.5) + 0*20 = -1\<close> satisfies the
  stated bound \<open>-1 \<le> floor(20) - 20\<close>.
\<close>

theorem startTimes_of_floor_counterexample:
  "startTimes_of \<lparr>startTimestamp = - 1 / 2, endTimestamp = 20, scans = []\<rparr> 20 20 = Inr [0] \<and>
   \<lfloor>- 1 / 2 :: rat\<rfloor> + 0 * 20 = (- 1 :: int) \<and>
   \<lfloor>- 1 / 2 :: rat\<rfloor> + 0 * 20 \<le> \<lfloor>20 :: rat\<rfloor> - (20 :: int)"
proof -
  have "startTimes_of \<lparr>startTimestamp = - 1 / 2, endTimestamp = 20, scans = []\<rparr> 20 20 = Inr [0]"
    by code_simp
  moreover have "\<lfloor>- 1 / 2 :: rat\<rfloor> = - 1"
    by (rule floor_unique) simp_all
  ultimately show ?thesis by simp
qed

section \<open>The scan index\<close>

lemma getScansPerDevicePerNode_flat:
  "getScansPerDevicePerNode dset =
     fold (\<lambda>(nodeAddr, sc). add_scan nodeAddr sc) (all_scans (scans dset))
       \<lparr>scansPerDev = [], minRssi = 127, maxRssi = - 127\<rparr>"
proof -
  have "fold (\<lambda>(nodeAddr, ss) st. fold (add_scan nodeAddr) ss st) sc st =
        fold (\<lambda>(nodeAddr, sc). add_scan nodeAddr sc) (all_scans sc) st" for sc st
  proof (induction sc arbitrary: st)
    case Nil
    then show ?case by (simp add: all_scans_def)
  next
    case (Cons p sc)
    obtain n ss where p: "p = (n, ss)" by (cases p)
    have inner: "fold (add_scan n) ss st = fold (\<lambda>(nodeAddr, sc). add_scan nodeAddr sc) (map (Pair n) ss) st"
      by (simp add: fold_map comp_def)
    have "all_scans (p # sc) = map (Pair n) ss @ all_scans sc"
      by (simp add: all_scans_def p)
    then show ?case using Cons.IH inner by (simp add: p)
  qed
  then show ?thesis by (simp add: getScansPerDevicePerNode_def)
qed

lemma add_scan_minRssi: "minRssi (add_scan n sc st) = min (rssi sc) (minRssi st)"
  by (simp add: add_scan_def Let_def min_def)

lemma add_scan_maxRssi: "maxRssi (add_scan n sc st) = max (rssi sc) (maxRssi st)"
  by (simp add: add_scan_def Let_def max_def)

lemma fold_add_scan_bounds:
  "minRssi (fold (\<lambda>(nodeAddr, sc). add_scan nodeAddr sc) rs st) \<le> minRssi st \<and>
   maxRssi st \<le> maxRssi (fold (\<lambda>(nodeAddr, sc). add_scan nodeAddr sc) rs st) \<and>
   (\<forall>(n, sc) \<in> set rs.
       minRssi (fold (\<lambda>(nodeAddr, sc). add_scan nodeAddr sc) rs st) \<le> rssi sc \<and>
       rssi sc \<le> maxRssi (fold (\<lambda>(nodeAddr, sc). add_scan nodeAddr sc) rs st))"
proof (induction rs arbitrary: st)
  case Nil
  then show ?case by simp
next
  case (Cons p rs)
  obtain n sc where p: "p = (n, sc)" by (cases p)
  let ?st = "add_scan n sc st"
  let ?out = "fold (\<lambda>(nodeAddr, sc). add_scan nodeAddr sc) rs ?st"
  have ih: "minRssi ?out \<le> minRssi ?st" "maxRssi ?st \<le> maxRssi ?out"
    "\<forall>(n, sc) \<in> set rs. minRssi ?out \<le> rssi sc \<and> rssi sc \<le> maxRssi ?out"
    using Cons.IH [of ?st] by blast+
  have lo: "minRssi ?st \<le> rssi sc" "minRssi ?st \<le> minRssi st"
    by (simp_all add: add_scan_minRssi)
  have hi: "rssi sc \<le> maxRssi ?st" "maxRssi st \<le> maxRssi ?st"
    by (simp_all add: add_scan_maxRssi)
  have "minRssi ?out \<le> minRssi st" "maxRssi st \<le> maxRssi ?out"
    "minRssi ?out \<le> rssi sc" "rssi sc \<le> maxRssi ?out"
    using ih(1,2) lo hi by linarith+
  then show ?case using ih(3) by (simp add: p)
qed

lemma set_all_scans: "set (all_scans sc) = {(n, s). \<exists>ss. (n, ss) \<in> set sc \<and> s \<in> set ss}"
  by (auto simp: all_scans_def)

text \<open>
  C8. The result of \<open>getScansPerDevicePerNode\<close> has \<open>minRssi \<le> r \<le> maxRssi\<close> for the
  rssi \<open>r\<close> of every scan of the dataset, hence \<open>minRssi \<le> maxRssi\<close> as soon as there is
  a scan, and \<open>minRssi = 127\<close>, \<open>maxRssi = -127\<close> when there is none.
\<close>

theorem getScansPerDevicePerNode_rssi_range:
  "(\<forall>(n, ss) \<in> set (scans dset). \<forall>sc \<in> set ss.
       minRssi (getScansPerDevicePerNode dset) \<le> rssi sc \<and>
       rssi sc \<le> maxRssi (getScansPerDevicePerNode dset)) \<and>
   ((\<exists>(n, ss) \<in> set (scans dset). ss \<noteq> []) \<longrightarrow>
       minRssi (getScansPerDevicePerNode dset) \<le> maxRssi (getScansPerDevicePerNode dset)) \<and>
   ((\<forall>(n, ss) \<in> set (scans dset). ss = []) \<longrightarrow>
       minRssi (getScansPerDevicePerNode dset) = 127 \<and>
       maxRssi (getScansPerDevicePerNode dset) = - 127)"
proof -
  let ?out = "getScansPerDevicePerNode dset"
  have b: "\<forall>(n, sc) \<in> set (all_scans (scans dset)). minRssi ?out \<le> rssi sc \<and> rssi sc \<le> maxRssi ?out"
    unfolding getScansPerDevicePerNode_flat using fold_add_scan_bounds by blast
  have range: "minRssi ?out \<le> rssi sc \<and> rssi sc \<le> maxRssi ?out"
    if mem: "(n, ss) \<in> set (scans dset)" and sc: "sc \<in> set ss" for n ss sc
  proof -
    have "(n, sc) \<in> set (all_scans (scans dset))"
      using mem sc by (auto simp: set_all_scans)
    then show ?thesis using b by blast
  qed
  have order: "minRssi ?out \<le> maxRssi ?out"
    if mem: "(n, ss) \<in> set (scans dset)" and ne: "ss \<noteq> []" for n ss
  proof -
    obtain sc where "sc \<in> set ss" using ne by (cases ss) auto
    then have "minRssi ?out \<le> rssi sc \<and> rssi sc \<le> maxRssi ?out"
      using range mem by blast
    then show ?thesis by linarith
  qed
  have empty: "minRssi ?out = 127 \<and> maxRssi ?out = - 127"
    if "\<forall>(n, ss) \<in> set (scans dset). ss = []"
  proof -
    have "set (all_scans (scans dset)) = {}"
      using that by (auto simp: set_all_scans)
    then have "all_scans (scans dset) = []" by simp
    then show ?thesis by (simp add: getScansPerDevicePerNode_flat)
  qed
  show ?thesis using range order empty by blast
qed

theorem getScansPerDevicePerNode_rssi_range_witness:
  "minRssi (getScansPerDevicePerNode
      \<lparr>startTimestamp = 0, endTimestamp = 20,
       scans = [(''A'', [\<lparr>time = 10, rssi = - 60, address = ''D''\<rparr>,
                         \<lparr>time = 12, rssi = - 71, address = ''D''\<rparr>])]\<rparr>) \<le> - 71 \<and>
   - 60 \<le> maxRssi (getScansPerDevicePerNode
      \<lparr>startTimestamp = 0, endTimestamp = 20,
       scans = [(''A'', [\<lparr>time = 10, rssi = - 60, address = ''D''\<rparr>,
                         \<lparr>time = 12, rssi = - 71, address = ''D''\<rparr>])]\<rparr>) \<and>
   minRssi (getScansPerDevicePerNode \<lparr>startTimestamp = 0, endTimestamp = 20, scans = [(''A'', [])]\<rparr>) = 127 \<and>
   maxRssi (getScansPerDevicePerNode \<lparr>startTimestamp = 0, endTimestamp = 20, scans = [(''A'', [])]\<rparr>) = - 127"
  using getScansPerDevicePerNode_rssi_range
          [of "\<lparr>startTimestamp = 0, endTimestamp = 20,
                scans = [(''A'', [\<lparr>time = 10, rssi = - 60, address = ''D''\<rparr>,
                                  \<lparr>time = 12, rssi = - 71, address = ''D''\<rparr>])]\<rparr>"]
        getScansPerDevicePerNode_rssi_range
          [of "\<lparr>startTimestamp = 0, endTimestamp = 20, scans = [(''A'', [])]\<rparr>"]
  by simp

section \<open>Dictionaries updated in a loop, and the index\<close>

lemma upd_step_map_of:
  "map_of (upd_step G (k, a) m) k' =
     (if k' = k then (case G k a (map_of m k) of None \<Rightarrow> map_of m k | Some v \<Rightarrow> Some v)
      else map_of m k')"
  by (simp add: upd_step_def AList.update_conv' split: option.splits)

lemma fold_upd_step_map_of:
  assumes "distinct (map fst xs)"
  shows "map_of (fold (upd_step G) xs m) k =
     (case map_of xs k of
        None \<Rightarrow> map_of m k
      | Some a \<Rightarrow> (case G k a (map_of m k) of None \<Rightarrow> map_of m k | Some v \<Rightarrow> Some v))"
  using assms
proof (induction xs arbitrary: m)
  case Nil
  then show ?case by simp
next
  case (Cons p xs)
  obtain k0 a0 where p: "p = (k0, a0)" by (cases p)
  have d: "distinct (map fst xs)" and notin: "k0 \<notin> fst ` set xs"
    using Cons.prems by (simp_all add: p)
  have none: "map_of xs k0 = None"
    using notin by (simp add: map_of_eq_None_iff)
  have ih: "map_of (fold (upd_step G) xs (upd_step G (k0, a0) m)) k =
     (case map_of xs k of
        None \<Rightarrow> map_of (upd_step G (k0, a0) m) k
      | Some a \<Rightarrow> (case G k a (map_of (upd_step G (k0, a0) m) k) of
                     None \<Rightarrow> map_of (upd_step G (k0, a0) m) k | Some v \<Rightarrow> Some v))"
    using Cons.IH [OF d] .
  show ?case
  proof (cases "k = k0")
    case True
    show ?thesis unfolding True using ih [unfolded True] none
      by (simp add: p upd_step_map_of)
  next
    case False
    then have same: "map_of (upd_step G (k0, a0) m) k = map_of m k"
      by (simp add: upd_step_map_of)
    show ?thesis using ih False unfolding same by (simp add: p)
  qed
qed

lemma fold_upd_step_total:
  assumes "distinct (map fst xs)"
  shows "map_of (fold (upd_step (\<lambda>k a v. Some (F k a v))) xs m) k =
     (case map_of xs k of None \<Rightarrow> map_of m k | Some a \<Rightarrow> Some (F k a (map_of m k)))"
  by (simp add: fold_upd_step_map_of [OF assms] split: option.splits)

lemma upd_step_distinct:
  "distinct (map fst m) \<Longrightarrow> distinct (map fst (upd_step G p m))"
  by (cases p) (simp add: upd_step_def AList.distinct_update split: option.splits)

lemma fold_upd_step_distinct:
  "distinct (map fst m) \<Longrightarrow> distinct (map fst (fold (upd_step G) xs m))"
  by (induction xs arbitrary: m) (simp_all add: upd_step_distinct)

lemma index_list_add_scan:
  "index_list (scansPerDev (add_scan n' sc st)) d n =
     index_list (scansPerDev st) d n @
       (if n' = n \<and> address sc = d then [\<lparr>time = time sc, rssi = rssi sc\<rparr>] else [])"
  by (simp add: index_list_def olist_def add_scan_def Let_def AList.update_conv' split: option.splits)

lemma index_list_fold:
  "index_list (scansPerDev (fold (\<lambda>(nodeAddr, sc). add_scan nodeAddr sc) rs st)) d n =
     index_list (scansPerDev st) d n @
       map (\<lambda>(n', sc). \<lparr>time = time sc, rssi = rssi sc\<rparr>)
         (filter (\<lambda>(n', sc). n' = n \<and> address sc = d) rs)"
proof (induction rs arbitrary: st)
  case Nil
  then show ?case by simp
next
  case (Cons p rs)
  obtain n' sc where p: "p = (n', sc)" by (cases p)
  show ?case using Cons.IH [of "add_scan n' sc st"]
    by (simp add: p index_list_add_scan)
qed

lemma index_inv_add_scan:
  assumes "index_inv (scansPerDev st)"
  shows "index_inv (scansPerDev (add_scan n' sc st))"
proof -
  let ?spd = "scansPerDev st"
  define perNode where "perNode = (case map_of ?spd (address sc) of None \<Rightarrow> [] | Some m \<Rightarrow> m)"
  define en where "en = \<lparr>time = time sc, rssi = rssi sc\<rparr>"
  define perNode' where "perNode' = (case map_of perNode n' of
                        None \<Rightarrow> AList.update n' [en] perNode
                      | Some es \<Rightarrow> AList.update n' (es @ [en]) perNode)"
  have new: "scansPerDev (add_scan n' sc st) = AList.update (address sc) perNode' ?spd"
    unfolding add_scan_def Let_def perNode_def perNode'_def en_def by simp
  have dp_ne: "distinct (map fst perNode) \<and> (\<forall>n es. map_of perNode n = Some es \<longrightarrow> es \<noteq> [])"
  proof (cases "map_of ?spd (address sc)")
    case None
    then show ?thesis by (simp add: perNode_def)
  next
    case (Some m0)
    then have "perNode = m0" by (simp add: perNode_def)
    then show ?thesis using assms Some unfolding index_inv_def by blast
  qed
  have dp: "distinct (map fst perNode)" using dp_ne by blast
  have ne: "\<forall>n es. map_of perNode n = Some es \<longrightarrow> es \<noteq> []" using dp_ne by blast
  have dp': "distinct (map fst perNode')"
    using dp by (simp add: perNode'_def AList.distinct_update split: option.splits)
  have nn: "perNode' \<noteq> []"
    by (simp add: perNode'_def split: option.splits)
  have ne': "\<forall>n es. map_of perNode' n = Some es \<longrightarrow> es \<noteq> []"
    using ne by (auto simp: perNode'_def AList.update_conv' split: option.splits if_splits)
  have "distinct (map fst (AList.update (address sc) perNode' ?spd))"
    using assms by (simp add: index_inv_def AList.distinct_update)
  moreover have "distinct (map fst m) \<and> m \<noteq> [] \<and> (\<forall>n es. map_of m n = Some es \<longrightarrow> es \<noteq> [])"
    if "map_of (AList.update (address sc) perNode' ?spd) d = Some m" for d m
  proof (cases "d = address sc")
    case True
    then have "m = perNode'" using that by (simp add: AList.update_conv')
    then show ?thesis using dp' nn ne' by simp
  next
    case False
    then have "map_of ?spd d = Some m" using that by (simp add: AList.update_conv')
    then show ?thesis using assms unfolding index_inv_def by blast
  qed
  ultimately show ?thesis unfolding new index_inv_def by blast
qed

lemma index_inv_fold:
  "index_inv (scansPerDev st) \<Longrightarrow>
     index_inv (scansPerDev (fold (\<lambda>(nodeAddr, sc). add_scan nodeAddr sc) rs st))"
proof (induction rs arbitrary: st)
  case Nil
  then show ?case by simp
next
  case (Cons p rs)
  obtain n' sc where p: "p = (n', sc)" by (cases p)
  show ?case using Cons.IH [of "add_scan n' sc st"] Cons.prems
    by (simp add: p index_inv_add_scan)
qed

lemma index_inv_getScans: "index_inv (scansPerDev (getScansPerDevicePerNode dset))"
  unfolding getScansPerDevicePerNode_flat
  by (rule index_inv_fold) (simp add: index_inv_def)

lemma index_list_getScans:
  "index_list (scansPerDev (getScansPerDevicePerNode dset)) d n =
     map (\<lambda>(n', sc). \<lparr>time = time sc, rssi = rssi sc\<rparr>)
       (filter (\<lambda>(n', sc). n' = n \<and> address sc = d) (all_scans (scans dset)))"
  unfolding getScansPerDevicePerNode_flat
  by (simp add: index_list_fold) (simp add: index_list_def olist_def)

section \<open>The frequency loops\<close>

lemma fold_incr_last:
  "fold (\<lambda>sc xs. if P sc then incr_last xs else xs) es (ys @ [c]) =
     ys @ [c + of_nat (length (filter P es))]"
proof (induction es arbitrary: c)
  case Nil
  then show ?case by simp
next
  case (Cons e es)
  have "incr_last (ys @ [c]) = ys @ [c + 1]"
    by (simp add: incr_last_def)
  then show ?case using Cons.IH [of "c + 1"] Cons.IH [of c]
    by (simp add: algebra_simps)
qed

lemma freq_node_upd_step:
  "freq_node sts windowSize tInd =
     upd_step (\<lambda>n es v. Some (olist v @ [freq_value sts windowSize n es tInd]))"
proof (rule ext, rule ext)
  fix p :: "string \<times> entry list" and m :: "(string, rat list) dict"
  obtain n es where p: "p = (n, es)" by (cases p)
  define P where "P = (\<lambda>sc :: entry. inWindow sts windowSize tInd (time sc))"
  have xs0: "(case map_of m n of None \<Rightarrow> [0] | Some xs \<Rightarrow> xs @ [0]) = olist (map_of m n) @ [0::rat]"
    by (simp add: olist_def split: option.splits)
  have xs1: "fold (\<lambda>sc xs. if P sc then incr_last xs else xs) es (olist (map_of m n) @ [0]) =
        olist (map_of m n) @ [of_nat (count_in sts windowSize tInd es)]"
    by (simp add: fold_incr_last count_in_def P_def)
  have dl: "div_last (ys @ [c]) = ys @ [c / 6]" for ys c
    by (simp add: div_last_def)
  show "freq_node sts windowSize tInd p m =
     upd_step (\<lambda>n es v. Some (olist v @ [freq_value sts windowSize n es tInd])) p m"
    unfolding p freq_node_def upd_step_def Let_def prod.case xs0 xs1 [unfolded P_def]
    by (simp add: dl freq_value_def)
qed

lemma freq_time_loop:
  assumes "distinct (map fst nodes)"
  shows "map_of (fold (\<lambda>tInd m. fold (freq_node sts windowSize tInd) nodes m) ts m) k =
     (case map_of nodes k of
        None \<Rightarrow> map_of m k
      | Some es \<Rightarrow> if ts = [] then map_of m k
                   else Some (olist (map_of m k) @ map (freq_value sts windowSize k es) ts))"
proof (induction ts arbitrary: m)
  case Nil
  then show ?case by (simp split: option.splits)
next
  case (Cons t ts)
  define m' where "m' = fold (freq_node sts windowSize t) nodes m"
  have step: "map_of m' k =
     (case map_of nodes k of
        None \<Rightarrow> map_of m k
      | Some es \<Rightarrow> Some (olist (map_of m k) @ [freq_value sts windowSize k es t]))"
    unfolding m'_def freq_node_upd_step
    by (simp add: fold_upd_step_total [OF assms])
  show ?case
  proof (cases "map_of nodes k")
    case None
    then show ?thesis using Cons.IH [of m'] step by (simp add: m'_def)
  next
    case (Some es)
    then have s': "map_of m' k = Some (olist (map_of m k) @ [freq_value sts windowSize k es t])"
      using step by simp
    show ?thesis using Cons.IH [of m'] Some s'
      by (simp add: m'_def [symmetric] olist_def)
  qed
qed

lemma freq_time_loop_distinct:
  "distinct (map fst m) \<Longrightarrow>
     distinct (map fst (fold (\<lambda>tInd m. fold (freq_node sts windowSize tInd) nodes m) ts m))"
  by (induction ts arbitrary: m) (simp_all add: freq_node_upd_step fold_upd_step_distinct)

lemma freq_dev_upd_step:
  "freq_dev sts windowSize =
     upd_step (\<lambda>d nodes v. Some (fold (\<lambda>tInd m. fold (freq_node sts windowSize tInd) nodes m)
                                     [1..<length sts] (olist v)))"
  by (rule ext, rule ext) (simp add: freq_dev_def upd_step_def olist_def Let_def split: prod.splits)

lemma freq_devices_map_of:
  assumes "distinct (map fst spd)"
  shows "map_of (fold (freq_dev sts windowSize) spd []) d =
     (case map_of spd d of
        None \<Rightarrow> None
      | Some nodes \<Rightarrow> Some (fold (\<lambda>tInd m. fold (freq_node sts windowSize tInd) nodes m)
                               [1..<length sts] []))"
  unfolding freq_dev_upd_step
  by (simp add: fold_upd_step_total [OF assms] olist_def split: option.splits)

lemma freq_devices_distinct:
  "distinct (map fst (fold (freq_dev sts windowSize) spd []))"
  unfolding freq_dev_upd_step by (rule fold_upd_step_distinct) simp

section \<open>The average loops\<close>

lemma getFrequency_result:
  assumes "startTimes_of dset windowSize stepSize = Inr sts"
  shows "getFrequencyPerDevicePerNode dset windowSize stepSize =
     Inr \<lparr>startTimes = sts,
          numScansPerDev = fold (freq_dev sts windowSize)
                             (scansPerDev (getScansPerDevicePerNode dset)) []\<rparr>"
  using assms by (simp add: getFrequencyPerDevicePerNode_def Let_def)

lemma getAverage_result:
  assumes "startTimes_of dset windowSize stepSize = Inr sts"
  shows "getAverageRssiPerDevicePerNode dset windowSize stepSize =
     Inr \<lparr>startTimes = sts,
          avgRssiPerDev = fold (avg_dev sts windowSize)
                            (scansPerDev (getScansPerDevicePerNode dset)) []\<rparr>"
  using assms by (simp add: getAverageRssiPerDevicePerNode_def Let_def)

lemma freq_nodes_map_of:
  assumes "distinct (map fst nodes)"
  shows "map_of (fold (\<lambda>tInd m. fold (freq_node sts windowSize tInd) nodes m) [1..<length sts] []) n =
     (case map_of nodes n of
        None \<Rightarrow> None
      | Some es \<Rightarrow> if length sts \<le> 1 then None
                   else Some (map (freq_value sts windowSize n es) [1..<length sts]))"
proof (cases "length sts \<le> 1")
  case True
  then have e: "[1..<length sts] = []" by simp
  show ?thesis unfolding freq_time_loop [OF assms] e using True
    by (simp split: option.splits)
next
  case False
  then have "\<not> (length sts = 0 \<or> length sts \<le> 1)" by linarith
  then have e: "([1..<length sts] = []) = False" by (simp only: upt_eq_Nil_conv)
  show ?thesis unfolding freq_time_loop [OF assms] e using False
    by (simp add: olist_def split: option.splits)
qed

lemma window_sum_fold:
  "fold (\<lambda>sc (rssiSum, numScans).
             if inWindow sts windowSize tInd (time sc)
             then (rssiSum + of_int (rssi sc), numScans + 1)
             else (rssiSum, numScans)) es (a, c) =
     (a + sum_in sts windowSize tInd es, c + count_in sts windowSize tInd es)"
  by (induction es arbitrary: a c) (simp_all add: sum_in_def count_in_def algebra_simps)

lemma window_sum_eq:
  "window_sum sts windowSize tInd es = (sum_in sts windowSize tInd es, count_in sts windowSize tInd es)"
  by (simp add: window_sum_def window_sum_fold)

lemma avg_node_upd_step:
  "avg_node sts windowSize tInd =
     upd_step (\<lambda>n es v. if 0 < count_in sts windowSize tInd es
                         then map_option (\<lambda>xs. xs[tInd := avg_value sts windowSize es tInd]) v
                         else None)"
  by (rule ext, rule ext)
     (auto simp: avg_node_def upd_step_def window_sum_eq avg_value_def split: option.splits)

lemma avg_bucket_map_of:
  assumes "distinct (map fst nodes)"
  shows "map_of (fold (avg_node sts windowSize tInd) nodes m) k =
     (case map_of nodes k of
        None \<Rightarrow> map_of m k
      | Some es \<Rightarrow> map_option (bucket_store sts windowSize es tInd) (map_of m k))"
  unfolding avg_node_upd_step
  by (simp add: fold_upd_step_map_of [OF assms] bucket_store_def split: option.splits)

lemma avg_time_loop:
  assumes "distinct (map fst nodes)"
  shows "map_of (fold (\<lambda>tInd m. fold (avg_node sts windowSize tInd) nodes m) ts m) k =
     (case map_of nodes k of
        None \<Rightarrow> map_of m k
      | Some es \<Rightarrow> map_option (fold (bucket_store sts windowSize es) ts) (map_of m k))"
proof (induction ts arbitrary: m)
  case Nil
  then show ?case by (simp split: option.splits add: option.map_ident)
next
  case (Cons t ts)
  show ?case
    using Cons.IH [of "fold (avg_node sts windowSize t) nodes m"]
    by (simp add: avg_bucket_map_of [OF assms] option.map_comp comp_def split: option.splits)
qed

lemma bucket_store_length [simp]:
  "length (bucket_store sts windowSize es t xs) = length xs"
  by (simp add: bucket_store_def)

lemma fold_bucket_store_length [simp]:
  "length (fold (bucket_store sts windowSize es) ts xs) = length xs"
  by (induction ts arbitrary: xs) simp_all

lemma fold_bucket_store_nth:
  assumes "distinct ts" "i < length xs"
  shows "fold (bucket_store sts windowSize es) ts xs ! i =
     (if i \<in> set ts \<and> 0 < count_in sts windowSize i es then avg_value sts windowSize es i else xs ! i)"
  using assms
proof (induction ts arbitrary: xs)
  case Nil
  then show ?case by simp
next
  case (Cons t ts)
  have d: "distinct ts" and nt: "t \<notin> set ts" using Cons.prems(1) by simp_all
  have len: "i < length (bucket_store sts windowSize es t xs)" using Cons.prems(2) by simp
  have here: "bucket_store sts windowSize es t xs ! i =
     (if i = t \<and> 0 < count_in sts windowSize i es then avg_value sts windowSize es i else xs ! i)"
    using Cons.prems(2) by (auto simp: bucket_store_def)
  show ?case using Cons.IH [OF d len] here nt by auto
qed

lemma fold_bucket_store_all:
  "fold (bucket_store sts windowSize es) [0..<L] (replicate L (- 105)) =
     map (avg_value sts windowSize es) [0..<L]"
proof (rule nth_equalityI)
  show "length (fold (bucket_store sts windowSize es) [0..<L] (replicate L (- 105))) =
        length (map (avg_value sts windowSize es) [0..<L])" by simp
next
  fix i assume "i < length (fold (bucket_store sts windowSize es) [0..<L] (replicate L (- 105)))"
  then have i: "i < L" by simp
  have "fold (bucket_store sts windowSize es) [0..<L] (replicate L (- 105)) ! i =
     (if i \<in> set [0..<L] \<and> 0 < count_in sts windowSize i es
      then avg_value sts windowSize es i else replicate L (- 105) ! i)"
    by (rule fold_bucket_store_nth) (simp_all add: i)
  then show "fold (bucket_store sts windowSize es) [0..<L] (replicate L (- 105)) ! i =
        map (avg_value sts windowSize es) [0..<L] ! i"
    using i by (simp add: avg_value_def)
qed

lemma avg_init_map_of:
  assumes "distinct (map fst nodes)"
  shows "map_of (fold (\<lambda>(nodeAddr, es) m. AList.update nodeAddr (replicate L (- 105 :: rat)) m) nodes []) k =
     (case map_of nodes k of None \<Rightarrow> None | Some (es :: entry list) \<Rightarrow> Some (replicate L (- 105)))"
proof -
  have eq: "(\<lambda>(nodeAddr, es :: entry list) m. AList.update nodeAddr (replicate L (- 105 :: rat)) m) =
        upd_step (\<lambda>n es v. Some (replicate L (- 105)))"
    by (rule ext, rule ext) (simp add: upd_step_def split: prod.splits)
  show ?thesis unfolding eq
    by (simp add: fold_upd_step_total [OF assms] split: option.splits)
qed

lemma avg_nodes_map_of:
  assumes "distinct (map fst nodes)"
  shows "map_of (fold (\<lambda>tInd m. fold (avg_node sts windowSize tInd) nodes m) [0..<length sts]
            (fold (\<lambda>(nodeAddr, es) m. AList.update nodeAddr (replicate (length sts) (- 105)) m) nodes [])) n =
     (case map_of nodes n of
        None \<Rightarrow> None
      | Some es \<Rightarrow> Some (map (avg_value sts windowSize es) [0..<length sts]))"
  by (simp add: avg_time_loop [OF assms] avg_init_map_of [OF assms] fold_bucket_store_all
           split: option.splits)

lemma avg_dev_upd_step:
  "avg_dev sts windowSize =
     upd_step (\<lambda>d nodes v. Some (fold (\<lambda>tInd m. fold (avg_node sts windowSize tInd) nodes m) [0..<length sts]
            (fold (\<lambda>(nodeAddr, es) m. AList.update nodeAddr (replicate (length sts) (- 105)) m) nodes [])))"
  by (rule ext, rule ext) (simp add: avg_dev_def upd_step_def Let_def split: prod.splits)

lemma avg_devices_map_of:
  assumes "distinct (map fst spd)"
  shows "map_of (fold (avg_dev sts windowSize) spd []) d =
     (case map_of spd d of
        None \<Rightarrow> None
      | Some nodes \<Rightarrow> Some (fold (\<lambda>tInd m. fold (avg_node sts windowSize tInd) nodes m) [0..<length sts]
            (fold (\<lambda>(nodeAddr, es) m. AList.update nodeAddr (replicate (length sts) (- 105)) m) nodes [])))"
  unfolding avg_dev_upd_step
  by (simp add: fold_upd_step_total [OF assms] split: option.splits)

section \<open>The order of the keys\<close>

lemma upd_step_keys_old:
  assumes "k \<in> fst ` set m"
  shows "map fst (upd_step G (k, a) m) = map fst m"
  using assms by (simp add: upd_step_def update_keys split: option.splits)

lemma fold_upd_step_keys_fixed:
  assumes "fst ` set xs \<subseteq> fst ` set m"
  shows "map fst (fold (upd_step G) xs m) = map fst m"
  using assms
proof (induction xs arbitrary: m)
  case Nil
  then show ?case by simp
next
  case (Cons p xs)
  obtain k a where p: "p = (k, a)" by (cases p)
  have k: "k \<in> fst ` set m" using Cons.prems by (auto simp: p)
  have same: "map fst (upd_step G (k, a) m) = map fst m"
    by (rule upd_step_keys_old [OF k])
  have "set (map fst (upd_step G (k, a) m)) = set (map fst m)" by (simp only: same)
  then have "fst ` set xs \<subseteq> fst ` set (upd_step G (k, a) m)"
    using Cons.prems by auto
  from Cons.IH [OF this] show ?case by (simp add: p same)
qed

lemma fold_upd_step_keys_new:
  assumes "distinct (map fst xs)" "fst ` set xs \<inter> fst ` set m = {}"
  shows "map fst (fold (upd_step (\<lambda>k a v. Some (F k a v))) xs m) = map fst m @ map fst xs"
  using assms
proof (induction xs arbitrary: m)
  case Nil
  then show ?case by simp
next
  case (Cons p xs)
  obtain k a where p: "p = (k, a)" by (cases p)
  let ?m = "upd_step (\<lambda>k a v. Some (F k a v)) (k, a) m"
  have k: "k \<notin> fst ` set m" and kx: "k \<notin> fst ` set xs" and d: "distinct (map fst xs)"
    and dis: "fst ` set xs \<inter> fst ` set m = {}"
    using Cons.prems by (auto simp: p)
  have keys: "map fst ?m = map fst m @ [k]"
    using k by (simp add: upd_step_def update_keys)
  have "set (map fst ?m) = insert k (set (map fst m))" by (simp only: keys) simp
  then have "fst ` set ?m = insert k (fst ` set m)" by simp
  then have "fst ` set xs \<inter> fst ` set ?m = {}" using dis kx by auto
  from Cons.IH [OF d this] show ?case by (simp add: p keys)
qed

lemma freq_bucket_keys_fixed:
  assumes "map fst m = map fst nodes"
  shows "map fst (fold (freq_node sts windowSize tInd) nodes m) = map fst nodes"
proof -
  have "set (map fst nodes) = set (map fst m)" by (simp only: assms)
  then have "fst ` set nodes \<subseteq> fst ` set m" by simp
  then show ?thesis unfolding freq_node_upd_step
    by (simp add: fold_upd_step_keys_fixed assms)
qed

lemma freq_time_keys_fixed:
  assumes "map fst m = map fst nodes"
  shows "map fst (fold (\<lambda>tInd m. fold (freq_node sts windowSize tInd) nodes m) ts m) = map fst nodes"
  using assms by (induction ts arbitrary: m) (simp_all add: freq_bucket_keys_fixed)

lemma freq_time_keys:
  assumes "distinct (map fst nodes)" "ts \<noteq> []"
  shows "map fst (fold (\<lambda>tInd m. fold (freq_node sts windowSize tInd) nodes m) ts []) = map fst nodes"
proof -
  obtain t ts' where ts: "ts = t # ts'" using assms(2) by (cases ts) auto
  have first: "map fst (fold (freq_node sts windowSize t) nodes []) = map fst nodes"
    unfolding freq_node_upd_step using fold_upd_step_keys_new [OF assms(1), of "[]"] by simp
  show ?thesis unfolding ts using freq_time_keys_fixed [OF first] by simp
qed

lemma avg_bucket_keys_fixed:
  assumes "map fst m = map fst nodes"
  shows "map fst (fold (avg_node sts windowSize tInd) nodes m) = map fst nodes"
proof -
  have "set (map fst nodes) = set (map fst m)" by (simp only: assms)
  then have "fst ` set nodes \<subseteq> fst ` set m" by simp
  then show ?thesis unfolding avg_node_upd_step
    by (simp add: fold_upd_step_keys_fixed assms)
qed

lemma avg_time_keys_fixed:
  assumes "map fst m = map fst nodes"
  shows "map fst (fold (\<lambda>tInd m. fold (avg_node sts windowSize tInd) nodes m) ts m) = map fst nodes"
  using assms by (induction ts arbitrary: m) (simp_all add: avg_bucket_keys_fixed)

lemma avg_keys:
  assumes "distinct (map fst nodes)"
  shows "map fst (fold (\<lambda>tInd m. fold (avg_node sts windowSize tInd) nodes m) ts
            (fold (\<lambda>(nodeAddr, es) m. AList.update nodeAddr (replicate L (- 105)) m) nodes [])) =
         map fst nodes"
proof -
  have eq: "(\<lambda>(nodeAddr, es :: entry list) m. AList.update nodeAddr (replicate L (- 105 :: rat)) m) =
        upd_step (\<lambda>n es v. Some (replicate L (- 105)))"
    by (rule ext, rule ext) (simp add: upd_step_def split: prod.splits)
  have first: "map fst (fold (\<lambda>(nodeAddr, es :: entry list) m.
                   AList.update nodeAddr (replicate L (- 105 :: rat)) m) nodes []) = map fst nodes"
    unfolding eq using fold_upd_step_keys_new [OF assms, of "[]"] by simp
  show ?thesis by (rule avg_time_keys_fixed [OF first])
qed

lemma same_nodes:
  assumes inv: "index_inv spd"
      and two: "2 \<le> length sts"
      and m: "(d, m) \<in> set (fold (freq_dev sts windowSize) spd [])"
      and a: "map_of (fold (avg_dev sts windowSize) spd []) d = Some a"
  shows "map fst m = map fst a"
proof -
  have dspd: "distinct (map fst spd)" using inv by (simp add: index_inv_def)
  have "map_of (fold (freq_dev sts windowSize) spd []) d = Some m"
    using m freq_devices_distinct by simp
  then obtain nodes where nodes: "map_of spd d = Some nodes"
    and m': "m = fold (\<lambda>tInd m. fold (freq_node sts windowSize tInd) nodes m) [1..<length sts] []"
    unfolding freq_devices_map_of [OF dspd] by (auto split: option.splits)
  have a': "a = fold (\<lambda>tInd m. fold (avg_node sts windowSize tInd) nodes m) [0..<length sts]
            (fold (\<lambda>(nodeAddr, es) m. AList.update nodeAddr (replicate (length sts) (- 105)) m) nodes [])"
    using a nodes unfolding avg_devices_map_of [OF dspd] by simp
  have dn: "distinct (map fst nodes)" using inv nodes unfolding index_inv_def by blast
  have ne: "[1..<length sts] \<noteq> []"
  proof
    assume "[1..<length sts] = []"
    then have "length sts = 0 \<or> length sts \<le> 1" by (simp only: upt_eq_Nil_conv)
    then show False using two by auto
  qed
  have "map fst m = map fst nodes" unfolding m' by (rule freq_time_keys [OF dn ne])
  moreover have "map fst a = map fst nodes" unfolding a' by (rule avg_keys [OF dn])
  ultimately show ?thesis by simp
qed

lemma freq_entry_exists:
  assumes inv: "index_inv spd"
      and a: "map_of (fold (avg_dev sts windowSize) spd []) d = Some a"
  shows "\<exists>m. (d, m) \<in> set (fold (freq_dev sts windowSize) spd [])"
proof -
  have dspd: "distinct (map fst spd)" using inv by (simp add: index_inv_def)
  obtain nodes where "map_of spd d = Some nodes"
    using a unfolding avg_devices_map_of [OF dspd] by (auto split: option.splits)
  then have "\<exists>m. map_of (fold (freq_dev sts windowSize) spd []) d = Some m"
    unfolding freq_devices_map_of [OF dspd] by simp
  then show ?thesis by (blast dest: map_of_SomeD)
qed

section \<open>One bucket of a path\<close>

lemma foldE_append:
  "foldE f (xs @ ys) s = (case foldE f xs s of Inl e \<Rightarrow> Inl e | Inr s' \<Rightarrow> foldE f ys s')"
  by (induction xs arbitrary: s) (simp_all split: sum.splits)

lemma weights_loop:
  assumes "map_of avgRssi dev = Some a" "avg_covers a nodes L" "tInd < L"
  shows "foldE (weight_step fo avgRssi dev tInd) nodes (wts, ws) =
     Inr (fold (\<lambda>n. AList.update n (node_weight fo a tInd n)) nodes wts,
          fold (\<lambda>n s. fl_add fo s (node_weight fo a tInd n)) nodes ws)"
  using assms(2)
proof (induction nodes arbitrary: wts ws)
  case Nil
  then show ?case by simp
next
  case (Cons n nodes)
  obtain xs where xs: "map_of a n = Some xs" "length xs = L"
    using Cons.prems by (auto simp: avg_covers_def)
  have rest: "avg_covers a nodes L" using Cons.prems by (simp add: avg_covers_def)
  have step: "weight_step fo avgRssi dev tInd n (wts, ws) =
      Inr (AList.update n (node_weight fo a tInd n) wts, fl_add fo ws (node_weight fo a tInd n))"
    using assms(1,3) xs by (simp add: weight_step_def node_weight_def Let_def)
  show ?case using Cons.IH [OF rest] step by simp
qed

lemma weights_lookup:
  "n \<in> set nodes \<Longrightarrow> map_of (fold (\<lambda>n. AList.update n (W n)) nodes wts) n = Some (W n)"
proof (induction nodes arbitrary: wts rule: rev_induct)
  case Nil
  then show ?case by simp
next
  case (snoc k nodes)
  show ?case
  proof (cases "n = k")
    case True
    then show ?thesis by (simp add: AList.update_conv')
  next
    case False
    then have "n \<in> set nodes" using snoc.prems by simp
    then show ?thesis using snoc.IH False by (simp add: AList.update_conv')
  qed
qed

lemma centroid_loop:
  assumes "\<forall>n \<in> set nodes. map_of wts n = Some (W n)"
      and "\<forall>n \<in> set nodes. \<exists>l. map_of locs n = Some l"
      and "ws \<noteq> 0"
      and "tInd < length px" "tInd < length py"
      and "px ! tInd = Num vx" "py ! tInd = Num vy"
  shows "foldE (centroid_step fo wts ws locs tInd) nodes (px, py) =
     Inr (px[tInd := Num (fold (\<lambda>n v. fl_add fo v (fl_mul fo (fl_div fo (W n) ws) (node_x locs n))) nodes vx)],
          py[tInd := Num (fold (\<lambda>n v. fl_add fo v (fl_mul fo (fl_div fo (W n) ws) (node_y locs n))) nodes vy)])"
  using assms
proof (induction nodes arbitrary: px py vx vy)
  case Nil
  then show ?case by (simp add: list_update_same_conv [THEN iffD2])
next
  case (Cons n nodes)
  obtain l where l: "map_of locs n = Some l" using Cons.prems(2) by auto
  have w: "map_of wts n = Some (W n)" using Cons.prems(1) by simp
  define vx' where "vx' = fl_add fo vx (fl_mul fo (fl_div fo (W n) ws) (loc_x l))"
  define vy' where "vy' = fl_add fo vy (fl_mul fo (fl_div fo (W n) ws) (loc_y l))"
  let ?px = "px[tInd := Num vx']"
  let ?py = "py[tInd := Num vy']"
  have step: "centroid_step fo wts ws locs tInd n (px, py) = Inr (?px, ?py)"
    using l w Cons.prems(3,6,7) by (simp add: centroid_step_def Let_def vx'_def vy'_def)
  have ih: "foldE (centroid_step fo wts ws locs tInd) nodes (?px, ?py) =
     Inr (?px[tInd := Num (fold (\<lambda>n v. fl_add fo v (fl_mul fo (fl_div fo (W n) ws) (node_x locs n))) nodes vx')],
          ?py[tInd := Num (fold (\<lambda>n v. fl_add fo v (fl_mul fo (fl_div fo (W n) ws) (node_y locs n))) nodes vy')])"
    using Cons.prems by (intro Cons.IH) simp_all
  have nx: "node_x locs n = loc_x l" and ny: "node_y locs n = loc_y l"
    using l by (simp_all add: node_x_def node_y_def)
  show ?case using step ih by (simp add: nx ny vx'_def vy'_def)
qed

lemma centroid_loop_fails:
  assumes "\<forall>n \<in> set nodes. map_of wts n = Some (W n)"
      and "\<exists>n \<in> set nodes. map_of locs n = None"
      and "ws \<noteq> 0"
  shows "\<exists>n \<in> set nodes. map_of locs n = None \<and>
           foldE (centroid_step fo wts ws locs tInd) nodes (px, py) = Inl (KeyError n)"
  using assms(1,2)
proof (induction nodes arbitrary: px py)
  case Nil
  then show ?case by simp
next
  case (Cons n nodes)
  have w: "map_of wts n = Some (W n)" using Cons.prems(1) by simp
  show ?case
  proof (cases "map_of locs n")
    case None
    then have "centroid_step fo wts ws locs tInd n (px, py) = Inl (KeyError n)"
      using w assms(3) by (simp add: centroid_step_def Let_def)
    then show ?thesis using None by simp
  next
    case (Some l)
    then obtain s' where step: "centroid_step fo wts ws locs tInd n (px, py) = Inr s'"
      using w assms(3) by (simp add: centroid_step_def Let_def)
    obtain px' py' where s': "s' = (px', py')" by (cases s')
    have ex: "\<exists>n \<in> set nodes. map_of locs n = None"
      using Cons.prems(2) Some by auto
    have "\<forall>n \<in> set nodes. map_of wts n = Some (W n)" using Cons.prems(1) by simp
    from Cons.IH [OF this ex, of px' py']
    show ?thesis using step s' by auto
  qed
qed

lemma weights_result:
  assumes "map_of avgRssi dev = Some a" "avg_covers a nodes L" "tInd < L"
  shows "foldE (weight_step fo avgRssi dev tInd) nodes ([], 0) =
     Inr (fold (\<lambda>n. AList.update n (node_weight fo a tInd n)) nodes [], weight_sum fo a nodes tInd)"
  using weights_loop [OF assms, of fo "[]" 0] by (simp add: weight_sum_def)

lemma path_bucket_ok:
  assumes "map_of avgRssi dev = Some a" "avg_covers a nodes L" "tInd < L"
      and "weight_sum fo a nodes tInd < 1 \<or> (\<forall>n \<in> set nodes. \<exists>l. map_of locs n = Some l)"
      and "tInd < length px" "tInd < length py"
      and "px ! tInd = Num 0" "py ! tInd = Num 0"
  shows "path_bucket fo avgRssi locs dev nodes tInd (px, py) =
     Inr (px[tInd := centroid fo a (node_x locs) nodes tInd],
          py[tInd := centroid fo a (node_y locs) nodes tInd])"
proof -
  let ?wts = "fold (\<lambda>n. AList.update n (node_weight fo a tInd n)) nodes []"
  have wl: "foldE (weight_step fo avgRssi dev tInd) nodes ([], 0) = Inr (?wts, weight_sum fo a nodes tInd)"
    by (rule weights_result [OF assms(1,2,3)])
  show ?thesis
  proof (cases "weight_sum fo a nodes tInd < 1")
    case True
    then show ?thesis using wl by (simp add: path_bucket_def centroid_def)
  next
    case False
    then have locs: "\<forall>n \<in> set nodes. \<exists>l. map_of locs n = Some l" using assms(4) by blast
    have nz: "weight_sum fo a nodes tInd \<noteq> 0" using False by auto
    have look: "\<forall>n \<in> set nodes. map_of ?wts n = Some (node_weight fo a tInd n)"
      by (simp add: weights_lookup)
    have "foldE (centroid_step fo ?wts (weight_sum fo a nodes tInd) locs tInd) nodes (px, py) =
       Inr (px[tInd := Num (fold (\<lambda>n v. fl_add fo v (fl_mul fo
                 (fl_div fo (node_weight fo a tInd n) (weight_sum fo a nodes tInd)) (node_x locs n))) nodes 0)],
            py[tInd := Num (fold (\<lambda>n v. fl_add fo v (fl_mul fo
                 (fl_div fo (node_weight fo a tInd n) (weight_sum fo a nodes tInd)) (node_y locs n))) nodes 0)])"
      by (rule centroid_loop [OF look locs nz assms(5,6,7,8)])
    then show ?thesis using wl False by (simp add: path_bucket_def centroid_def)
  qed
qed

lemma path_bucket_fails:
  assumes "map_of avgRssi dev = Some a" "avg_covers a nodes L" "tInd < L"
      and "\<not> weight_sum fo a nodes tInd < 1" "\<exists>n \<in> set nodes. map_of locs n = None"
  shows "\<exists>n \<in> set nodes. map_of locs n = None \<and>
           path_bucket fo avgRssi locs dev nodes tInd (px, py) = Inl (KeyError n)"
proof -
  let ?wts = "fold (\<lambda>n. AList.update n (node_weight fo a tInd n)) nodes []"
  have wl: "foldE (weight_step fo avgRssi dev tInd) nodes ([], 0) = Inr (?wts, weight_sum fo a nodes tInd)"
    by (rule weights_result [OF assms(1,2,3)])
  have nz: "weight_sum fo a nodes tInd \<noteq> 0" using assms(4) by auto
  have look: "\<forall>n \<in> set nodes. map_of ?wts n = Some (node_weight fo a tInd n)"
    by (simp add: weights_lookup)
  from centroid_loop_fails [OF look assms(5) nz, of fo tInd px py]
  show ?thesis using wl assms(4) by (simp add: path_bucket_def)
qed

section \<open>All buckets of a device\<close>

lemma foldE_fails:
  assumes "\<forall>x \<in> set xs. \<forall>s. (\<exists>s'. f x s = Inr s') \<or> (\<exists>e. P e \<and> f x s = Inl e)"
      and "\<exists>x \<in> set xs. \<forall>s. \<exists>e. P e \<and> f x s = Inl e"
  shows "\<exists>e. P e \<and> foldE f xs s = Inl e"
  using assms
proof (induction xs arbitrary: s)
  case Nil
  then show ?case by simp
next
  case (Cons x xs)
  from Cons.prems(1) have hd: "(\<exists>s'. f x s = Inr s') \<or> (\<exists>e. P e \<and> f x s = Inl e)" by simp
  then show ?case
  proof
    assume "\<exists>s'. f x s = Inr s'"
    then obtain s' where s': "f x s = Inr s'" by blast
    have later: "\<exists>y \<in> set xs. \<forall>s. \<exists>e. P e \<and> f y s = Inl e"
    proof -
      from Cons.prems(2) obtain y where y: "y \<in> set (x # xs)" "\<forall>s. \<exists>e. P e \<and> f y s = Inl e" by blast
      have "y \<noteq> x"
      proof
        assume "y = x"
        with y(2) obtain e where "f x s = Inl e" by blast
        with s' show False by simp
      qed
      then show ?thesis using y by auto
    qed
    have "\<forall>x \<in> set xs. \<forall>s. (\<exists>s'. f x s = Inr s') \<or> (\<exists>e. P e \<and> f x s = Inl e)"
      using Cons.prems(1) by simp
    from Cons.IH [OF this later, of s'] show ?thesis using s' by simp
  next
    assume "\<exists>e. P e \<and> f x s = Inl e"
    then show ?thesis by auto
  qed
qed

lemma foldE_fold:
  assumes "\<forall>x \<in> set xs. \<forall>s. f x s = Inr (g x s)"
  shows "foldE f xs s = Inr (fold g xs s)"
  using assms by (induction xs arbitrary: s) simp_all

lemma centroid_loop_total:
  assumes "\<forall>n \<in> set nodes. map_of wts n = Some (W n)"
      and "\<forall>n \<in> set nodes. \<exists>l. map_of locs n = Some l"
      and "ws \<noteq> 0"
  shows "\<exists>r. foldE (centroid_step fo wts ws locs tInd) nodes s = Inr r"
  using assms(1,2)
proof (induction nodes arbitrary: s)
  case Nil
  then show ?case by simp
next
  case (Cons n nodes)
  obtain px py where s: "s = (px, py)" by (cases s)
  obtain l where l: "map_of locs n = Some l" using Cons.prems(2) by auto
  have w: "map_of wts n = Some (W n)" using Cons.prems(1) by simp
  obtain s' where step: "centroid_step fo wts ws locs tInd n s = Inr s'"
    using l w assms(3) by (simp add: s centroid_step_def Let_def)
  have "\<exists>r. foldE (centroid_step fo wts ws locs tInd) nodes s' = Inr r"
    using Cons.prems by (intro Cons.IH) simp_all
  then show ?case using step by simp
qed

lemma path_bucket_cases:
  assumes "map_of avgRssi dev = Some a" "avg_covers a nodes L" "tInd < L"
  shows "(\<exists>r. path_bucket fo avgRssi locs dev nodes tInd s = Inr r) \<or>
         (\<exists>e. missing_in locs nodes e \<and> path_bucket fo avgRssi locs dev nodes tInd s = Inl e)"
proof -
  obtain px py where s: "s = (px, py)" by (cases s)
  let ?wts = "fold (\<lambda>n. AList.update n (node_weight fo a tInd n)) nodes []"
  have wl: "foldE (weight_step fo avgRssi dev tInd) nodes ([], 0) = Inr (?wts, weight_sum fo a nodes tInd)"
    by (rule weights_result [OF assms])
  have look: "\<forall>n \<in> set nodes. map_of ?wts n = Some (node_weight fo a tInd n)"
    by (simp add: weights_lookup)
  show ?thesis
  proof (cases "weight_sum fo a nodes tInd < 1")
    case True
    then show ?thesis using wl by (simp add: s path_bucket_def)
  next
    case False
    show ?thesis
    proof (cases "\<exists>n \<in> set nodes. map_of locs n = None")
      case True
      from path_bucket_fails [OF assms False True, of px py]
      show ?thesis unfolding s missing_in_def by blast
    next
      case noMissing: False
      then have "\<forall>n \<in> set nodes. \<exists>l. map_of locs n = Some l" by auto
      moreover have "weight_sum fo a nodes tInd \<noteq> 0" using False by auto
      ultimately have "\<exists>r. foldE (centroid_step fo ?wts (weight_sum fo a nodes tInd) locs tInd) nodes s = Inr r"
        using look by (intro centroid_loop_total)
      then
      show ?thesis using wl False by (simp add: s path_bucket_def)
    qed
  qed
qed

lemma path_buckets_fail:
  assumes "map_of avgRssi dev = Some a" "avg_covers a nodes L" "dev_fails fo a locs nodes L"
  shows "\<exists>e. missing_in locs nodes e \<and> foldE (path_bucket fo avgRssi locs dev nodes) [0..<L] s = Inl e"
proof (rule foldE_fails)
  show "\<forall>x \<in> set [0..<L]. \<forall>s. (\<exists>s'. path_bucket fo avgRssi locs dev nodes x s = Inr s') \<or>
          (\<exists>e. missing_in locs nodes e \<and> path_bucket fo avgRssi locs dev nodes x s = Inl e)"
    using path_bucket_cases [OF assms(1,2)] by simp
next
  from assms(3) obtain i where i: "i < L" "\<not> weight_sum fo a nodes i < 1"
    and miss: "\<exists>n \<in> set nodes. map_of locs n = None"
    unfolding dev_fails_def by blast
  have mem: "i \<in> set [0..<L]" using i(1) by simp
  have always: "\<forall>s. \<exists>e. missing_in locs nodes e \<and> path_bucket fo avgRssi locs dev nodes i s = Inl e"
  proof
    fix s :: "coord list \<times> coord list"
    obtain px py where s: "s = (px, py)" by (cases s)
    from path_bucket_fails [OF assms(1,2) i(1,2) miss, of px py]
    show "\<exists>e. missing_in locs nodes e \<and> path_bucket fo avgRssi locs dev nodes i s = Inl e"
      unfolding s missing_in_def by blast
  qed
  show "\<exists>x \<in> set [0..<L]. \<forall>s. \<exists>e. missing_in locs nodes e \<and>
      path_bucket fo avgRssi locs dev nodes x s = Inl e"
    using always mem by blast
qed

lemma path_buckets_prefix:
  assumes "map_of avgRssi dev = Some a" "avg_covers a nodes L" "\<not> dev_fails fo a locs nodes L" "k \<le> L"
  shows "foldE (path_bucket fo avgRssi locs dev nodes) [0..<k]
           (replicate L (Num 0), replicate L (Num 0)) =
     Inr (map (centroid fo a (node_x locs) nodes) [0..<k] @ replicate (L - k) (Num 0),
          map (centroid fo a (node_y locs) nodes) [0..<k] @ replicate (L - k) (Num 0))"
  using assms(4)
proof (induction k)
  case 0
  then show ?case by simp
next
  case (Suc k)
  then have k: "k < L" by simp
  let ?px = "map (centroid fo a (node_x locs) nodes) [0..<k] @ replicate (L - k) (Num 0)"
  let ?py = "map (centroid fo a (node_y locs) nodes) [0..<k] @ replicate (L - k) (Num 0)"
  have ih: "foldE (path_bucket fo avgRssi locs dev nodes) [0..<k]
           (replicate L (Num 0), replicate L (Num 0)) = Inr (?px, ?py)"
    using Suc by simp
  have safe: "weight_sum fo a nodes k < 1 \<or> (\<forall>n \<in> set nodes. \<exists>l. map_of locs n = Some l)"
    using assms(3) k unfolding dev_fails_def by (metis not_Some_eq)
  have rep: "replicate (L - k) (Num 0) = Num 0 # replicate (L - Suc k) (Num 0)"
    using k by (metis Suc_diff_Suc replicate_Suc)
  have nx: "?px ! k = Num 0" and ny: "?py ! k = Num 0"
    using k by (simp_all add: nth_append)
  have lx: "k < length ?px" and ly: "k < length ?py" using k by simp_all
  have step: "path_bucket fo avgRssi locs dev nodes k (?px, ?py) =
     Inr (?px[k := centroid fo a (node_x locs) nodes k], ?py[k := centroid fo a (node_y locs) nodes k])"
    by (rule path_bucket_ok [OF assms(1,2) k safe lx ly nx ny])
  have ux: "?px[k := c] = map (centroid fo a (node_x locs) nodes) [0..<k] @ c # replicate (L - Suc k) (Num 0)" for c
    unfolding rep by (simp add: list_update_append)
  have uy: "?py[k := c] = map (centroid fo a (node_y locs) nodes) [0..<k] @ c # replicate (L - Suc k) (Num 0)" for c
    unfolding rep by (simp add: list_update_append)
  have "foldE (path_bucket fo avgRssi locs dev nodes) [0..<Suc k]
           (replicate L (Num 0), replicate L (Num 0)) =
        path_bucket fo avgRssi locs dev nodes k (?px, ?py)"
    using ih by (simp add: foldE_append split: sum.splits)
  then show ?case unfolding step ux uy by simp
qed

lemma path_buckets_ok:
  assumes "map_of avgRssi dev = Some a" "avg_covers a nodes L" "\<not> dev_fails fo a locs nodes L"
  shows "foldE (path_bucket fo avgRssi locs dev nodes) [0..<L]
           (replicate L (Num 0), replicate L (Num 0)) =
     Inr (map (centroid fo a (node_x locs) nodes) [0..<L],
          map (centroid fo a (node_y locs) nodes) [0..<L])"
  using path_buckets_prefix [OF assms, of L] by simp

section \<open>All devices\<close>

lemma outputs_consistent:
  assumes inv: "index_inv spd"
      and mem: "(d, m) \<in> set (fold (freq_dev sts windowSize) spd [])"
  shows "\<exists>a. map_of (fold (avg_dev sts windowSize) spd []) d = Some a \<and>
             avg_covers a (map fst m) (length sts)"
proof -
  have dspd: "distinct (map fst spd)" using inv by (simp add: index_inv_def)
  have "map_of (fold (freq_dev sts windowSize) spd []) d = Some m"
    using mem freq_devices_distinct by simp
  then obtain nodes where nodes: "map_of spd d = Some nodes"
    and m: "m = fold (\<lambda>tInd m. fold (freq_node sts windowSize tInd) nodes m) [1..<length sts] []"
    unfolding freq_devices_map_of [OF dspd] by (auto split: option.splits)
  have dn: "distinct (map fst nodes)" using inv nodes unfolding index_inv_def by blast
  define a where "a = fold (\<lambda>tInd m. fold (avg_node sts windowSize tInd) nodes m) [0..<length sts]
            (fold (\<lambda>(nodeAddr, es) m. AList.update nodeAddr (replicate (length sts) (- 105)) m) nodes [])"
  have av: "map_of (fold (avg_dev sts windowSize) spd []) d = Some a"
    unfolding avg_devices_map_of [OF dspd] a_def using nodes by simp
  have "\<exists>xs. map_of a n = Some xs \<and> length xs = length sts" if n: "n \<in> set (map fst m)" for n
  proof -
    have "map_of m n \<noteq> None" using n by (simp add: map_of_eq_None_iff)
    then obtain es where "map_of nodes n = Some es"
      unfolding m freq_nodes_map_of [OF dn] by (auto split: option.splits)
    then have "map_of a n = Some (map (avg_value sts windowSize es) [0..<length sts])"
      unfolding a_def avg_nodes_map_of [OF dn] by simp
    then show ?thesis by simp
  qed
  then show ?thesis using av unfolding avg_covers_def by blast
qed

lemma path_dev_ok:
  assumes "map_of avgRssi dev = Some a" "avg_covers a (map fst m) (length sts)"
      and "\<not> dev_fails fo a locs (map fst m) (length sts)"
  shows "path_dev fo avgRssi locs sts (dev, m) paths =
           Inr (AList.update dev (dev_path fo a locs (map fst m) (length sts)) paths)"
  using path_buckets_ok [OF assms]
  by (simp add: path_dev_def dev_path_def)

lemma path_dev_fail:
  assumes "map_of avgRssi dev = Some a" "avg_covers a (map fst m) (length sts)"
      and "dev_fails fo a locs (map fst m) (length sts)"
  shows "\<exists>e. missing_in locs (map fst m) e \<and> path_dev fo avgRssi locs sts (dev, m) paths = Inl e"
proof -
  from path_buckets_fail [OF assms]
  obtain e where "missing_in locs (map fst m) e"
    "foldE (path_bucket fo avgRssi locs dev (map fst m)) [0..<length sts]
       (replicate (length sts) (Num 0), replicate (length sts) (Num 0)) = Inl e"
    by blast
  then show ?thesis by (auto simp: path_dev_def)
qed

lemma path_devices_fail:
  assumes inv: "index_inv spd"
      and ns: "ns = fold (freq_dev sts windowSize) spd []"
      and av: "av = fold (avg_dev sts windowSize) spd []"
      and fails: "any_fails fo ns av locs (length sts)"
  shows "\<exists>e. (\<exists>(d, m) \<in> set ns. missing_in locs (map fst m) e) \<and>
              foldE (path_dev fo av locs sts) ns paths = Inl e"
proof (rule foldE_fails)
  show "\<forall>x \<in> set ns. \<forall>s. (\<exists>s'. path_dev fo av locs sts x s = Inr s') \<or>
          (\<exists>e. (\<exists>(d, m) \<in> set ns. missing_in locs (map fst m) e) \<and> path_dev fo av locs sts x s = Inl e)"
  proof (intro ballI allI)
    fix x s assume x: "x \<in> set ns"
    obtain d m where dm: "x = (d, m)" by (cases x)
    obtain a where a: "map_of av d = Some a" "avg_covers a (map fst m) (length sts)"
      using outputs_consistent [OF inv, of d m sts windowSize] x unfolding ns av dm by blast
    show "(\<exists>s'. path_dev fo av locs sts x s = Inr s') \<or>
          (\<exists>e. (\<exists>(d, m) \<in> set ns. missing_in locs (map fst m) e) \<and> path_dev fo av locs sts x s = Inl e)"
    proof (cases "dev_fails fo a locs (map fst m) (length sts)")
      case True
      from path_dev_fail [OF a True, of s] x show ?thesis unfolding dm by blast
    next
      case False
      from path_dev_ok [OF a False, of s] show ?thesis unfolding dm by blast
    qed
  qed
next
  from fails obtain d m where x: "(d, m) \<in> set ns"
    and f: "dev_fails fo (olist (map_of av d)) locs (map fst m) (length sts)"
    unfolding any_fails_def by blast
  obtain a where a: "map_of av d = Some a" "avg_covers a (map fst m) (length sts)"
    using outputs_consistent [OF inv, of d m sts windowSize] x unfolding ns av by blast
  have f': "dev_fails fo a locs (map fst m) (length sts)" using f a(1) by (simp add: olist_def)
  have "\<forall>s. \<exists>e. (\<exists>(d, m) \<in> set ns. missing_in locs (map fst m) e) \<and>
          path_dev fo av locs sts (d, m) s = Inl e"
  proof
    fix s
    from path_dev_fail [OF a f', of s] x
    show "\<exists>e. (\<exists>(d, m) \<in> set ns. missing_in locs (map fst m) e) \<and>
          path_dev fo av locs sts (d, m) s = Inl e" by blast
  qed
  then show "\<exists>x \<in> set ns. \<forall>s. \<exists>e. (\<exists>(d, m) \<in> set ns. missing_in locs (map fst m) e) \<and>
          path_dev fo av locs sts x s = Inl e"
    using x by blast
qed

lemma path_devices_ok:
  assumes inv: "index_inv spd"
      and ns: "ns = fold (freq_dev sts windowSize) spd []"
      and av: "av = fold (avg_dev sts windowSize) spd []"
      and ok: "\<not> any_fails fo ns av locs (length sts)"
  shows "\<exists>paths. foldE (path_dev fo av locs sts) ns [] = Inr paths \<and>
           (\<forall>d. map_of paths d =
              (case map_of ns d of
                 None \<Rightarrow> None
               | Some m \<Rightarrow> Some (dev_path fo (olist (map_of av d)) locs (map fst m) (length sts))))"
proof -
  define g where "g = upd_step (\<lambda>d (m :: (string, rat list) dict) (v :: path option).
      Some (dev_path fo (olist (map_of av d)) locs (map fst m) (length sts)))"
  have step: "\<forall>x \<in> set ns. \<forall>s. path_dev fo av locs sts x s = Inr (g x s)"
  proof (intro ballI allI)
    fix x s assume x: "x \<in> set ns"
    obtain d m where dm: "x = (d, m)" by (cases x)
    obtain a where a: "map_of av d = Some a" "avg_covers a (map fst m) (length sts)"
      using outputs_consistent [OF inv, of d m sts windowSize] x unfolding ns av dm by blast
    have nf: "\<not> dev_fails fo a locs (map fst m) (length sts)"
      using ok x a(1) unfolding any_fails_def dm by (auto simp: olist_def)
    show "path_dev fo av locs sts x s = Inr (g x s)"
      unfolding dm path_dev_ok [OF a nf] g_def upd_step_def using a(1) by (simp add: olist_def)
  qed
  have d: "distinct (map fst ns)" unfolding ns by (rule freq_devices_distinct)
  have "foldE (path_dev fo av locs sts) ns [] = Inr (fold g ns [])"
    by (rule foldE_fold [OF step])
  moreover have "map_of (fold g ns []) d =
              (case map_of ns d of
                 None \<Rightarrow> None
               | Some m \<Rightarrow> Some (dev_path fo (olist (map_of av d)) locs (map fst m) (length sts)))" for d
    unfolding g_def by (simp add: fold_upd_step_total [OF d] split: option.splits)
  ultimately show ?thesis by blast
qed

section \<open>Sequences of the two aggregation functions\<close>

lemma startTimes_of_total:
  assumes "stepSize \<noteq> 0"
  shows "\<exists>sts. startTimes_of dset windowSize stepSize = Inr sts"
  using assms by (simp add: startTimes_of_def py_range_def)

lemma index_lookup_list:
  assumes "map_of (scansPerDev (getScansPerDevicePerNode dset)) d = Some nodes"
      and "map_of nodes n = Some es"
  shows "es = map (\<lambda>(n', sc). \<lparr>time = time sc, rssi = rssi sc\<rparr>)
                (filter (\<lambda>(n', sc). n' = n \<and> address sc = d) (all_scans (scans dset)))"
proof -
  have "index_list (scansPerDev (getScansPerDevicePerNode dset)) d n = es"
    using assms by (simp add: index_list_def olist_def)
  then show ?thesis by (simp add: index_list_getScans)
qed

lemma avg_entry:
  assumes sts: "startTimes_of dset windowSize stepSize = Inr sts"
      and nodes: "map_of (scansPerDev (getScansPerDevicePerNode dset)) d = Some nodes"
      and es: "map_of nodes n = Some es"
  shows "\<exists>m. map_of (fold (avg_dev sts windowSize) (scansPerDev (getScansPerDevicePerNode dset)) []) d = Some m \<and>
             map_of m n = Some (map (avg_value sts windowSize es) [0..<length sts])"
proof -
  let ?spd = "scansPerDev (getScansPerDevicePerNode dset)"
  have inv: "index_inv ?spd" by (rule index_inv_getScans)
  have dspd: "distinct (map fst ?spd)" using inv by (simp add: index_inv_def)
  have dn: "distinct (map fst nodes)" using inv nodes unfolding index_inv_def by blast
  show ?thesis
    unfolding avg_devices_map_of [OF dspd] using nodes es
    by (simp add: avg_nodes_map_of [OF dn])
qed

lemma freq_entry:
  assumes sts: "startTimes_of dset windowSize stepSize = Inr sts"
      and nodes: "map_of (scansPerDev (getScansPerDevicePerNode dset)) d = Some nodes"
  shows "\<exists>m. map_of (fold (freq_dev sts windowSize) (scansPerDev (getScansPerDevicePerNode dset)) []) d = Some m \<and>
             (length sts \<le> 1 \<longrightarrow> m = []) \<and>
             (\<forall>n. map_of m n =
                (case map_of nodes n of
                   None \<Rightarrow> None
                 | Some es \<Rightarrow> if length sts \<le> 1 then None
                              else Some (map (freq_value sts windowSize n es) [1..<length sts])))"
proof -
  let ?spd = "scansPerDev (getScansPerDevicePerNode dset)"
  have inv: "index_inv ?spd" by (rule index_inv_getScans)
  have dspd: "distinct (map fst ?spd)" using inv by (simp add: index_inv_def)
  have dn: "distinct (map fst nodes)" using inv nodes unfolding index_inv_def by blast
  let ?m = "fold (\<lambda>tInd m. fold (freq_node sts windowSize tInd) nodes m) [1..<length sts] []"
  have "map_of (fold (freq_dev sts windowSize) ?spd []) d = Some ?m"
    unfolding freq_devices_map_of [OF dspd] using nodes by simp
  moreover have "length sts \<le> 1 \<longrightarrow> ?m = []" by simp
  ultimately show ?thesis using freq_nodes_map_of [OF dn] by blast
qed

text \<open>
  C6. For every pair of a device and a node that the index holds, with the list \<open>es\<close> of
  its scans, \<open>getAverageRssiPerDevicePerNode\<close> returns for the pair a sequence with one
  entry per bucket; entry \<open>i\<close> is the arithmetic mean of the rssi of the scans of \<open>es\<close>
  that pass the window test of bucket \<open>i\<close>, and \<open>-105\<close> when none does. The list
  \<open>es\<close> holds the scans of the device in the list of the node, in their order. The
  function returns for every step other than zero.
\<close>

theorem getAverageRssi_sequences:
  assumes step: "stepSize \<noteq> 0"
      and nodes: "map_of (scansPerDev (getScansPerDevicePerNode dset)) d = Some nodes"
      and es: "map_of nodes n = Some es"
  shows "\<exists>sts out m xs.
           startTimes_of dset windowSize stepSize = Inr sts \<and>
           getAverageRssiPerDevicePerNode dset windowSize stepSize = Inr out \<and>
           startTimes out = sts \<and>
           map_of (avgRssiPerDev out) d = Some m \<and> map_of m n = Some xs \<and>
           length xs = length sts \<and>
           (\<forall>i < length sts.
              xs ! i = (let inb = filter (\<lambda>sc. inWindow sts windowSize i (time sc)) es
                        in if inb = [] then - 105
                           else sum_list (map (\<lambda>sc. of_int (rssi sc)) inb) / of_nat (length inb))) \<and>
           es = map (\<lambda>(n', sc). \<lparr>time = time sc, rssi = rssi sc\<rparr>)
                  (filter (\<lambda>(n', sc). n' = n \<and> address sc = d) (all_scans (scans dset)))"
proof -
  obtain sts where sts: "startTimes_of dset windowSize stepSize = Inr sts"
    using startTimes_of_total [OF step] by blast
  let ?out = "\<lparr>startTimes = sts,
          avgRssiPerDev = fold (avg_dev sts windowSize)
                            (scansPerDev (getScansPerDevicePerNode dset)) []\<rparr>"
  have out: "getAverageRssiPerDevicePerNode dset windowSize stepSize = Inr ?out"
    by (rule getAverage_result [OF sts])
  obtain m where m: "map_of (avgRssiPerDev ?out) d = Some m"
      "map_of m n = Some (map (avg_value sts windowSize es) [0..<length sts])"
    using avg_entry [OF sts nodes es] by auto
  let ?xs = "map (avg_value sts windowSize es) [0..<length sts]"
  have val: "?xs ! i = (let inb = filter (\<lambda>sc. inWindow sts windowSize i (time sc)) es
                        in if inb = [] then - 105
                           else sum_list (map (\<lambda>sc. of_int (rssi sc)) inb) / of_nat (length inb))"
    if "i < length sts" for i
    using that by (simp add: avg_value_def count_in_def sum_in_def Let_def)
  have "length ?xs = length sts" by simp
  then show ?thesis
    using sts out m val index_lookup_list [OF nodes es]
    by (intro exI [of _ sts] exI [of _ ?out] exI [of _ m] exI [of _ ?xs]) simp
qed


theorem getAverageRssi_sequences_witness:
  "\<exists>sts out m xs.
     startTimes_of \<lparr>startTimestamp = 0, endTimestamp = 40,
                     scans = [(''A'', [\<lparr>time = 10, rssi = - 60, address = ''D''\<rparr>])]\<rparr> 20 20 = Inr sts \<and>
     getAverageRssiPerDevicePerNode \<lparr>startTimestamp = 0, endTimestamp = 40,
                     scans = [(''A'', [\<lparr>time = 10, rssi = - 60, address = ''D''\<rparr>])]\<rparr> 20 20 = Inr out \<and>
     startTimes out = sts \<and>
     map_of (avgRssiPerDev out) ''D'' = Some m \<and> map_of m ''A'' = Some xs \<and>
     length xs = length sts \<and>
     (\<forall>i < length sts.
        xs ! i = (let inb = filter (\<lambda>sc. inWindow sts 20 i (time sc)) [\<lparr>time = 10, rssi = - 60\<rparr>]
                  in if inb = [] then - 105
                     else sum_list (map (\<lambda>sc. of_int (rssi sc)) inb) / of_nat (length inb)))"
proof -
  let ?D = "\<lparr>startTimestamp = 0, endTimestamp = 40,
             scans = [(''A'', [\<lparr>time = 10, rssi = - 60, address = ''D''\<rparr>])]\<rparr>"
  have step: "(20::int) \<noteq> 0" by simp
  have nodes: "map_of (scansPerDev (getScansPerDevicePerNode ?D)) ''D'' =
                 Some [(''A'', [\<lparr>time = 10, rssi = - 60\<rparr>])]"
    by code_simp
  have es: "map_of [(''A'', [\<lparr>time = 10, rssi = - 60\<rparr>])] ''A'' = Some [\<lparr>time = 10, rssi = - 60\<rparr>]"
    by simp
  show ?thesis
    using getAverageRssi_sequences [OF step nodes es, where windowSize = 20] by blast
qed

text \<open>
  C3 (as amended). For every pair of a device and a node that the index holds: with two
  buckets or more, the frequency sequence of the pair has exactly one entry fewer than
  its average sequence, entry \<open>k\<close> being the count of bucket \<open>k + 1\<close> (divided by six for
  a fast node); with one bucket or none, the frequency output maps the device to an
  empty mapping, so that the pair has no frequency sequence at all, while its average
  sequence has one entry per bucket.
\<close>

theorem frequency_one_fewer:
  assumes step: "stepSize \<noteq> 0"
      and nodes: "map_of (scansPerDev (getScansPerDevicePerNode dset)) d = Some nodes"
      and es: "map_of nodes n = Some es"
  shows "\<exists>sts fr av fm am xs.
           startTimes_of dset windowSize stepSize = Inr sts \<and>
           getFrequencyPerDevicePerNode dset windowSize stepSize = Inr fr \<and>
           getAverageRssiPerDevicePerNode dset windowSize stepSize = Inr av \<and>
           startTimes fr = sts \<and> startTimes av = sts \<and>
           map_of (numScansPerDev fr) d = Some fm \<and>
           map_of (avgRssiPerDev av) d = Some am \<and>
           map_of am n = Some xs \<and> length xs = length sts \<and>
           (if length sts \<le> 1 then fm = []
            else (\<exists>fs. map_of fm n = Some fs \<and> length fs + 1 = length xs \<and>
                   (\<forall>k < length fs.
                      fs ! k = (let c = of_nat (length (filter (\<lambda>sc. inWindow sts windowSize (k + 1) (time sc)) es))
                                in if n \<in> set fastNodes then c / 6 else c))))"
proof -
  obtain sts where sts: "startTimes_of dset windowSize stepSize = Inr sts"
    using startTimes_of_total [OF step] by blast
  let ?spd = "scansPerDev (getScansPerDevicePerNode dset)"
  let ?fr = "\<lparr>startTimes = sts, numScansPerDev = fold (freq_dev sts windowSize) ?spd []\<rparr>"
  let ?av = "\<lparr>startTimes = sts, avgRssiPerDev = fold (avg_dev sts windowSize) ?spd []\<rparr>"
  let ?xs = "map (avg_value sts windowSize es) [0..<length sts]"
  let ?fs = "map (freq_value sts windowSize n es) [1..<length sts]"
  obtain am where am: "map_of (avgRssiPerDev ?av) d = Some am" "map_of am n = Some ?xs"
    using avg_entry [OF sts nodes es] by auto
  obtain fm where fm: "map_of (numScansPerDev ?fr) d = Some fm"
      "length sts \<le> 1 \<longrightarrow> fm = []"
      "\<forall>n. map_of fm n =
                (case map_of nodes n of
                   None \<Rightarrow> None
                 | Some es \<Rightarrow> if length sts \<le> 1 then None
                              else Some (map (freq_value sts windowSize n es) [1..<length sts]))"
    using freq_entry [OF sts nodes] by auto
  have tail: "if length sts \<le> 1 then fm = []
            else (\<exists>fs. map_of fm n = Some fs \<and> length fs + 1 = length ?xs \<and>
                   (\<forall>k < length fs.
                      fs ! k = (let c = of_nat (length (filter (\<lambda>sc. inWindow sts windowSize (k + 1) (time sc)) es))
                                in if n \<in> set fastNodes then c / 6 else c)))"
  proof (cases "length sts \<le> 1")
    case True
    then show ?thesis using fm(2) by simp
  next
    case False
    have look: "map_of fm n = Some ?fs" using fm(3) es False by simp
    have len: "length ?fs + 1 = length ?xs" using False by simp
    have val: "?fs ! k = (let c = of_nat (length (filter (\<lambda>sc. inWindow sts windowSize (k + 1) (time sc)) es))
                                in if n \<in> set fastNodes then c / 6 else c)" if "k < length ?fs" for k
      using that by (simp add: freq_value_def count_in_def Let_def)
    show ?thesis using False look len val by (simp only: if_False) blast
  qed
  have "length ?xs = length sts" by simp
  then show ?thesis
    using sts getFrequency_result [OF sts] getAverage_result [OF sts] fm(1) am tail
    by (intro exI [of _ sts] exI [of _ ?fr] exI [of _ ?av] exI [of _ fm] exI [of _ am] exI [of _ ?xs])
       simp
qed

theorem frequency_one_fewer_witness:
  "\<exists>sts fr av fm am xs.
     startTimes_of \<lparr>startTimestamp = 0, endTimestamp = 65,
                     scans = [(''A'', [\<lparr>time = 25, rssi = - 60, address = ''D''\<rparr>])]\<rparr> 20 20 = Inr sts \<and>
     getFrequencyPerDevicePerNode \<lparr>startTimestamp = 0, endTimestamp = 65,
                     scans = [(''A'', [\<lparr>time = 25, rssi = - 60, address = ''D''\<rparr>])]\<rparr> 20 20 = Inr fr \<and>
     getAverageRssiPerDevicePerNode \<lparr>startTimestamp = 0, endTimestamp = 65,
                     scans = [(''A'', [\<lparr>time = 25, rssi = - 60, address = ''D''\<rparr>])]\<rparr> 20 20 = Inr av \<and>
     startTimes fr = sts \<and> startTimes av = sts \<and>
     map_of (numScansPerDev fr) ''D'' = Some fm \<and>
     map_of (avgRssiPerDev av) ''D'' = Some am \<and>
     map_of am ''A'' = Some xs \<and> length xs = length sts \<and>
     (if length sts \<le> 1 then fm = []
      else (\<exists>fs. map_of fm ''A'' = Some fs \<and> length fs + 1 = length xs \<and>
             (\<forall>k < length fs.
                fs ! k = (let c = of_nat (length (filter (\<lambda>sc. inWindow sts 20 (k + 1) (time sc))
                                                    [\<lparr>time = 25, rssi = - 60\<rparr>]))
                          in if ''A'' \<in> set fastNodes then c / 6 else c))))"
proof -
  let ?D = "\<lparr>startTimestamp = 0, endTimestamp = 65,
             scans = [(''A'', [\<lparr>time = 25, rssi = - 60, address = ''D''\<rparr>])]\<rparr>"
  have step: "(20::int) \<noteq> 0" by simp
  have nodes: "map_of (scansPerDev (getScansPerDevicePerNode ?D)) ''D'' =
                 Some [(''A'', [\<lparr>time = 25, rssi = - 60\<rparr>])]"
    by code_simp
  have es: "map_of [(''A'', [\<lparr>time = 25, rssi = - 60\<rparr>])] ''A'' = Some [\<lparr>time = 25, rssi = - 60\<rparr>]"
    by simp
  show ?thesis
    using frequency_one_fewer [OF step nodes es, where windowSize = 20] by blast
qed

text \<open>
  C3 as stated fails when the window is longer than the time range: there is no bucket,
  the average sequence of the pair is empty, and the frequency output has no sequence
  for the pair, which cannot be one entry shorter.
\<close>

theorem frequency_no_sequence_counterexample:
  "getFrequencyPerDevicePerNode
     \<lparr>startTimestamp = 0, endTimestamp = 20,
      scans = [(''A'', [\<lparr>time = 10, rssi = - 60, address = ''D''\<rparr>])]\<rparr> 30 20 =
     Inr \<lparr>startTimes = [], numScansPerDev = [(''D'', [])]\<rparr> \<and>
   getAverageRssiPerDevicePerNode
     \<lparr>startTimestamp = 0, endTimestamp = 20,
      scans = [(''A'', [\<lparr>time = 10, rssi = - 60, address = ''D''\<rparr>])]\<rparr> 30 20 =
     Inr \<lparr>startTimes = [], avgRssiPerDev = [(''D'', [(''A'', [])])]\<rparr>"
  by code_simp

section \<open>Membership of a scan in a bucket\<close>

lemma inWindow_iff:
  "inWindow sts windowSize i t \<longleftrightarrow> of_int (sts ! i) \<le> t \<and> t < of_int (sts ! i) + of_int windowSize"
  by (simp add: inWindow_def)

text \<open>
  C5 (as amended). For the bucket sequence of a positive step, a scan at time \<open>t\<close> is
  counted in bucket \<open>i\<close> exactly when \<open>startTimes[i] \<le> t < startTimes[i] + windowSize\<close>:
  the loop of lines 109 to 114 sums and counts exactly these scans, and the loop of
  lines 72 to 75 adds one to the last frequency entry for exactly these scans. A scan
  at \<open>startTimes[i] + windowSize\<close> is never counted in bucket \<open>i\<close>, and it is counted
  in bucket \<open>i + 1\<close>, when that bucket exists, exactly when \<open>stepSize \<le> windowSize\<close>.
  When \<open>stepSize < windowSize\<close>, a scan at \<open>startTimes[i + 1]\<close> is counted both in
  bucket \<open>i\<close> and in bucket \<open>i + 1\<close>.
\<close>

theorem window_membership:
  assumes step: "0 < stepSize"
      and sts: "startTimes_of dset windowSize stepSize = Inr sts"
  shows "(\<forall>i es. window_sum sts windowSize i es =
            (sum_list (map (\<lambda>sc. of_int (rssi sc))
               (filter (\<lambda>sc. of_int (sts ! i) \<le> time sc \<and> time sc < of_int (sts ! i) + of_int windowSize) es)),
             length (filter (\<lambda>sc. of_int (sts ! i) \<le> time sc \<and> time sc < of_int (sts ! i) + of_int windowSize) es))) \<and>
         (\<forall>i (es :: entry list) ys.
            fold (\<lambda>sc xs. if inWindow sts windowSize i (time sc) then incr_last xs else xs) es (ys @ [0]) =
            ys @ [of_nat (length (filter (\<lambda>sc. of_int (sts ! i) \<le> time sc \<and> time sc < of_int (sts ! i) + of_int windowSize) es))]) \<and>
         (\<forall>i. Suc i < length sts \<longrightarrow>
            \<not> inWindow sts windowSize i (of_int (sts ! i + windowSize)) \<and>
            (inWindow sts windowSize (Suc i) (of_int (sts ! i + windowSize)) \<longleftrightarrow> stepSize \<le> windowSize)) \<and>
         (stepSize < windowSize \<longrightarrow>
            (\<forall>i. Suc i < length sts \<longrightarrow>
               inWindow sts windowSize i (of_int (sts ! Suc i)) \<and>
               inWindow sts windowSize (Suc i) (of_int (sts ! Suc i))))"
proof -
  have a: "window_sum sts windowSize i es =
            (sum_list (map (\<lambda>sc. of_int (rssi sc))
               (filter (\<lambda>sc. of_int (sts ! i) \<le> time sc \<and> time sc < of_int (sts ! i) + of_int windowSize) es)),
             length (filter (\<lambda>sc. of_int (sts ! i) \<le> time sc \<and> time sc < of_int (sts ! i) + of_int windowSize) es))"
    for i es
    by (simp add: window_sum_eq sum_in_def count_in_def inWindow_iff)
  have b: "fold (\<lambda>sc xs. if inWindow sts windowSize i (time sc) then incr_last xs else xs) es (ys @ [0]) =
            ys @ [of_nat (length (filter (\<lambda>sc. of_int (sts ! i) \<le> time sc \<and> time sc < of_int (sts ! i) + of_int windowSize) es))]"
    for i and es :: "entry list" and ys
    by (simp add: fold_incr_last inWindow_iff)
  have eq: "sts = range_up (py_int (startTimestamp dset))
                  (py_int (endTimestamp dset) - windowSize + 1) stepSize"
    using sts startTimes_of_ascending [OF step, of dset windowSize] by simp
  have nth: "sts ! i = py_int (startTimestamp dset) + int i * stepSize" if "i < length sts" for i
    using range_up_length_nth [OF step] that unfolding eq by blast
  have next_start: "sts ! Suc i = sts ! i + stepSize" if "Suc i < length sts" for i
    using nth [of i] nth [of "Suc i"] that by (simp add: algebra_simps)
  have c: "\<not> inWindow sts windowSize i (of_int (sts ! i + windowSize)) \<and>
            (inWindow sts windowSize (Suc i) (of_int (sts ! i + windowSize)) \<longleftrightarrow> stepSize \<le> windowSize)"
    if "Suc i < length sts" for i
  proof -
    have n: "sts ! Suc i = sts ! i + stepSize" by (rule next_start [OF that])
    have "inWindow sts windowSize (Suc i) (of_int (sts ! i + windowSize)) \<longleftrightarrow>
          sts ! i + stepSize \<le> sts ! i + windowSize \<and> sts ! i + windowSize < sts ! i + stepSize + windowSize"
      unfolding inWindow_def n by (simp only: of_int_le_iff of_int_less_iff)
    moreover have "\<not> inWindow sts windowSize i (of_int (sts ! i + windowSize))"
      by (simp add: inWindow_def)
    ultimately show ?thesis using step by auto
  qed
  have d: "inWindow sts windowSize i (of_int (sts ! Suc i)) \<and>
           inWindow sts windowSize (Suc i) (of_int (sts ! Suc i))"
    if lt: "stepSize < windowSize" and i: "Suc i < length sts" for i
  proof -
    have n: "sts ! Suc i = sts ! i + stepSize" by (rule next_start [OF i])
    have "inWindow sts windowSize i (of_int (sts ! Suc i)) \<longleftrightarrow>
          sts ! i \<le> sts ! i + stepSize \<and> sts ! i + stepSize < sts ! i + windowSize"
      unfolding inWindow_def n by (simp only: of_int_le_iff of_int_less_iff)
    moreover have "inWindow sts windowSize (Suc i) (of_int (sts ! Suc i)) \<longleftrightarrow>
          sts ! Suc i \<le> sts ! Suc i \<and> sts ! Suc i < sts ! Suc i + windowSize"
      unfolding inWindow_def by (simp only: of_int_le_iff of_int_less_iff)
    ultimately show ?thesis using step lt by auto
  qed
  show ?thesis using a b c d by blast
qed

theorem window_membership_witness:
  "(\<forall>i es. window_sum [0, 10, 20, 30, 40] 20 i es =
            (sum_list (map (\<lambda>sc. of_int (rssi sc))
               (filter (\<lambda>sc. of_int ([0, 10, 20, 30, 40] ! i) \<le> time sc \<and>
                              time sc < of_int ([0, 10, 20, 30, 40] ! i) + of_int 20) es)),
             length (filter (\<lambda>sc. of_int ([0, 10, 20, 30, 40] ! i) \<le> time sc \<and>
                              time sc < of_int ([0, 10, 20, 30, 40] ! i) + of_int 20) es))) \<and>
   \<not> inWindow [0, 10, 20, 30, 40] 20 (Suc 0) (of_int ([0, 10, 20, 30, 40] ! Suc 0 + 20)) \<and>
   inWindow [0, 10, 20, 30, 40] 20 (Suc (Suc 0)) (of_int ([0, 10, 20, 30, 40] ! Suc 0 + 20)) \<and>
   inWindow [0, 10, 20, 30, 40] 20 (Suc 0) (of_int ([0, 10, 20, 30, 40] ! Suc (Suc 0))) \<and>
   inWindow [0, 10, 20, 30, 40] 20 (Suc (Suc 0)) (of_int ([0, 10, 20, 30, 40] ! Suc (Suc 0)))"
proof -
  have step: "(0::int) < 10" by simp
  have sts: "startTimes_of \<lparr>startTimestamp = 0, endTimestamp = 65, scans = []\<rparr> 20 10 =
               Inr [0, 10, 20, 30, 40]"
    by code_simp
  have lt: "(10::int) < 20" "(10::int) \<le> 20" by simp_all
  have ex: "Suc (Suc 0) < length [0, 10, 20, 30, 40 :: int]" by simp
  show ?thesis
    using window_membership [OF step sts] lt ex by blast
qed

text \<open>
  C5 as stated fails when the step is longer than the window: with window 10 and step
  20 the buckets start at 0, 20 and 40, and the scan at time \<open>10 = startTimes[0] + 10\<close>
  is counted in no bucket, bucket 1 included.
\<close>

theorem boundary_scan_counterexample:
  "getAverageRssiPerDevicePerNode
     \<lparr>startTimestamp = 0, endTimestamp = 50,
      scans = [(''A'', [\<lparr>time = 10, rssi = - 60, address = ''D''\<rparr>])]\<rparr> 10 20 =
     Inr \<lparr>startTimes = [0, 20, 40],
          avgRssiPerDev = [(''D'', [(''A'', [- 105, - 105, - 105])])]\<rparr> \<and>
   getFrequencyPerDevicePerNode
     \<lparr>startTimestamp = 0, endTimestamp = 50,
      scans = [(''A'', [\<lparr>time = 10, rssi = - 60, address = ''D''\<rparr>])]\<rparr> 10 20 =
     Inr \<lparr>startTimes = [0, 20, 40], numScansPerDev = [(''D'', [(''A'', [0, 0])])]\<rparr> \<and>
   (10 :: rat) = of_int ([0, 20, 40] ! 0 + 10) \<and>
   \<not> inWindow [0, 20, 40] 10 1 10"
  by code_simp

section \<open>Paths when there is at most one bucket\<close>

lemma getPath_unfold:
  assumes "startTimes_of dset windowSize stepSize = Inr sts"
  shows "getPathPerDevice fo dset windowSize stepSize locs =
     (case foldE (path_dev fo (fold (avg_dev sts windowSize) (scansPerDev (getScansPerDevicePerNode dset)) [])
                    locs sts)
             (fold (freq_dev sts windowSize) (scansPerDev (getScansPerDevicePerNode dset)) []) [] of
        Inl e \<Rightarrow> Inl e
      | Inr paths \<Rightarrow> Inr \<lparr>startTimes = sts, pathPerDevice = paths\<rparr>)"
  unfolding getPathPerDevice_def getFrequency_result [OF assms] getAverage_result [OF assms]
  by (simp cong: sum.case_cong)

lemma index_devices:
  "fst ` set (scansPerDev (getScansPerDevicePerNode dset)) =
     (\<lambda>(n, sc). address sc) ` set (all_scans (scans dset))"
proof (intro set_eqI iffI)
  let ?spd = "scansPerDev (getScansPerDevicePerNode dset)"
  have inv: "index_inv ?spd" by (rule index_inv_getScans)
  fix d
  {
    assume "d \<in> fst ` set ?spd"
    then obtain m where m: "map_of ?spd d = Some m"
      by (cases "map_of ?spd d") (simp_all add: map_of_eq_None_iff)
    then have "m \<noteq> []" using inv unfolding index_inv_def by blast
    then obtain n es rest where "m = (n, es) # rest"
      by (cases m) auto
    then have es: "map_of m n = Some es" by simp
    then have "es \<noteq> []" using inv m unfolding index_inv_def by blast
    moreover have "index_list ?spd d n = es" using m es by (simp add: index_list_def olist_def)
    ultimately have "filter (\<lambda>(n', sc). n' = n \<and> address sc = d) (all_scans (scans dset)) \<noteq> []"
      by (auto simp: index_list_getScans)
    then obtain n' sc where "(n', sc) \<in> set (all_scans (scans dset))" "address sc = d"
      by (auto simp: filter_empty_conv)
    then show "d \<in> (\<lambda>(n, sc). address sc) ` set (all_scans (scans dset))"
      by force
  }
  {
    assume "d \<in> (\<lambda>(n, sc). address sc) ` set (all_scans (scans dset))"
    then obtain n sc where p: "(n, sc) \<in> set (all_scans (scans dset))" "address sc = d" by auto
    then have "filter (\<lambda>(n', sc). n' = n \<and> address sc = d) (all_scans (scans dset)) \<noteq> []"
      by (auto simp: filter_empty_conv)
    then have "index_list ?spd d n \<noteq> []"
      unfolding index_list_getScans by simp
    then have "map_of ?spd d \<noteq> None"
      by (cases "map_of ?spd d") (simp_all add: index_list_def olist_def)
    then show "d \<in> fst ` set ?spd" by (simp add: map_of_eq_None_iff)
  }
qed

lemma centroid_no_nodes: "centroid fo a pos [] i = NaN"
  by (simp add: centroid_def weight_sum_def)

lemma dev_path_no_nodes:
  "dev_path fo a locs [] L = \<lparr>path_x = replicate L NaN, path_y = replicate L NaN\<rparr>"
proof -
  have "centroid fo a pos [] = (\<lambda>i. NaN)" for pos
    by (rule ext) (simp add: centroid_no_nodes)
  then show ?thesis by (simp add: dev_path_def map_replicate_const)
qed

text \<open>
  C10. When the bucket sequence has at most one element, the loop over
  \<open>range(1,len(startTimes))\<close> has no iteration: \<open>getFrequencyPerDevicePerNode\<close> maps
  every device of the dataset to an empty mapping. \<open>getPathPerDevice\<close> takes the nodes
  of a device from that mapping, so \<open>weightSum\<close> is 0 and the position of every device
  is \<open>NaN\<close> in every bucket, whatever the rssi values, the node locations and the
  float operations are.
\<close>

theorem single_bucket_no_position:
  assumes sts: "startTimes_of dset windowSize stepSize = Inr sts"
      and short: "length sts \<le> 1"
  shows "\<exists>fr out.
     getFrequencyPerDevicePerNode dset windowSize stepSize = Inr fr \<and> startTimes fr = sts \<and>
     fst ` set (numScansPerDev fr) = (\<lambda>(n, sc). address sc) ` set (all_scans (scans dset)) \<and>
     (\<forall>(d, m) \<in> set (numScansPerDev fr). m = [] \<and> (\<forall>a i. weight_sum fo a (map fst m) i = 0)) \<and>
     getPathPerDevice fo dset windowSize stepSize nodeLocations = Inr out \<and> startTimes out = sts \<and>
     (\<forall>d. map_of (pathPerDevice out) d =
            (if d \<in> (\<lambda>(n, sc). address sc) ` set (all_scans (scans dset))
             then Some \<lparr>path_x = replicate (length sts) NaN, path_y = replicate (length sts) NaN\<rparr>
             else None))"
proof -
  let ?spd = "scansPerDev (getScansPerDevicePerNode dset)"
  let ?ns = "fold (freq_dev sts windowSize) ?spd []"
  let ?av = "fold (avg_dev sts windowSize) ?spd []"
  let ?nan = "\<lparr>path_x = replicate (length sts) NaN, path_y = replicate (length sts) NaN\<rparr>"
  have inv: "index_inv ?spd" by (rule index_inv_getScans)
  have dspd: "distinct (map fst ?spd)" using inv by (simp add: index_inv_def)
  have dns: "distinct (map fst ?ns)" by (rule freq_devices_distinct)
  have empty_range: "[1..<length sts] = []" using short by simp
  have look: "map_of ?ns d = (case map_of ?spd d of None \<Rightarrow> None | Some nodes \<Rightarrow> Some [])" for d
    unfolding freq_devices_map_of [OF dspd] empty_range by (simp split: option.splits)
  have keys: "fst ` set ?ns = fst ` set ?spd"
  proof -
    have "dom (map_of ?ns) = dom (map_of ?spd)"
      by (auto simp: look dom_def split: option.splits)
    then show ?thesis by (simp add: dom_map_of_conv_image_fst)
  qed
  have empties: "m = []" if "(d, m) \<in> set ?ns" for d m
  proof -
    have "map_of ?ns d = Some m" using that dns by simp
    then show ?thesis unfolding look by (auto split: option.splits)
  qed
  have nofail: "\<not> any_fails fo ?ns ?av nodeLocations (length sts)"
  proof
    assume "any_fails fo ?ns ?av nodeLocations (length sts)"
    then obtain d m where dm: "(d, m) \<in> set ?ns"
      and f: "dev_fails fo (olist (map_of ?av d)) nodeLocations (map fst m) (length sts)"
      unfolding any_fails_def by blast
    have "m = []" by (rule empties [OF dm])
    with f show False by (simp add: dev_fails_def)
  qed
  obtain paths where paths: "foldE (path_dev fo ?av nodeLocations sts) ?ns [] = Inr paths"
    "\<forall>d. map_of paths d =
              (case map_of ?ns d of
                 None \<Rightarrow> None
               | Some m \<Rightarrow> Some (dev_path fo (olist (map_of ?av d)) nodeLocations (map fst m) (length sts)))"
    using path_devices_ok [OF inv refl refl nofail] by blast
  have pl: "map_of paths d = (if d \<in> fst ` set ?spd then Some ?nan else None)" for d
  proof (cases "map_of ?spd d")
    case None
    then have "d \<notin> fst ` set ?spd" by (simp add: map_of_eq_None_iff)
    then show ?thesis using paths(2) None by (simp add: look)
  next
    case (Some nodes)
    then have "d \<in> fst ` set ?spd" by (metis map_of_eq_None_iff option.distinct(1))
    then show ?thesis using paths(2) Some by (simp add: look dev_path_no_nodes)
  qed
  let ?fr = "\<lparr>startTimes = sts, numScansPerDev = ?ns\<rparr>"
  let ?out = "\<lparr>startTimes = sts, pathPerDevice = paths\<rparr>"
  have fr: "getFrequencyPerDevicePerNode dset windowSize stepSize = Inr ?fr"
    by (rule getFrequency_result [OF sts])
  have out: "getPathPerDevice fo dset windowSize stepSize nodeLocations = Inr ?out"
    unfolding getPath_unfold [OF sts] paths(1) by simp
  have w0: "\<forall>(d, m) \<in> set ?ns. m = [] \<and> (\<forall>a i. weight_sum fo a (map fst m) i = 0)"
  proof (intro ballI)
    fix x assume x: "x \<in> set ?ns"
    obtain d m where dm: "x = (d, m)" by (cases x)
    have "m = []" using empties x unfolding dm by blast
    then show "case x of (d, m) \<Rightarrow> m = [] \<and> (\<forall>a i. weight_sum fo a (map fst m) i = 0)"
      unfolding dm by (simp add: weight_sum_def)
  qed
  have keys': "fst ` set ?ns = (\<lambda>(n, sc). address sc) ` set (all_scans (scans dset))"
    using keys by (simp only: index_devices)
  have pl': "\<forall>d. map_of paths d =
            (if d \<in> (\<lambda>(n, sc). address sc) ` set (all_scans (scans dset)) then Some ?nan else None)"
    using pl by (simp only: index_devices) simp
  show ?thesis
  proof (intro exI conjI)
    show "getFrequencyPerDevicePerNode dset windowSize stepSize = Inr ?fr" by (rule fr)
    show "startTimes ?fr = sts" by simp
    show "fst ` set (numScansPerDev ?fr) = (\<lambda>(n, sc). address sc) ` set (all_scans (scans dset))"
      using keys' by simp
    show "\<forall>(d, m) \<in> set (numScansPerDev ?fr). m = [] \<and> (\<forall>a i. weight_sum fo a (map fst m) i = 0)"
      using w0 by simp
    show "getPathPerDevice fo dset windowSize stepSize nodeLocations = Inr ?out" by (rule out)
    show "startTimes ?out = sts" by simp
    show "\<forall>d. map_of (pathPerDevice ?out) d =
            (if d \<in> (\<lambda>(n, sc). address sc) ` set (all_scans (scans dset)) then Some ?nan else None)"
      using pl' by simp
  qed
qed

theorem single_bucket_no_position_witness:
  "\<exists>fr out.
     getFrequencyPerDevicePerNode
       \<lparr>startTimestamp = 0, endTimestamp = 20,
        scans = [(''A'', [\<lparr>time = 10, rssi = - 20, address = ''D''\<rparr>])]\<rparr> 20 20 = Inr fr \<and>
     startTimes fr = [0] \<and>
     fst ` set (numScansPerDev fr) =
       (\<lambda>(n, sc). address sc) ` set (all_scans (scans
          \<lparr>startTimestamp = 0, endTimestamp = 20,
           scans = [(''A'', [\<lparr>time = 10, rssi = - 20, address = ''D''\<rparr>])]\<rparr>)) \<and>
     (\<forall>(d, m) \<in> set (numScansPerDev fr). m = [] \<and> (\<forall>a i. weight_sum double_ops a (map fst m) i = 0)) \<and>
     getPathPerDevice double_ops
       \<lparr>startTimestamp = 0, endTimestamp = 20,
        scans = [(''A'', [\<lparr>time = 10, rssi = - 20, address = ''D''\<rparr>])]\<rparr> 20 20
       [(''A'', \<lparr>loc_x = 3, loc_y = 4\<rparr>)] = Inr out \<and>
     startTimes out = [0] \<and>
     (\<forall>d. map_of (pathPerDevice out) d =
            (if d \<in> (\<lambda>(n, sc). address sc) ` set (all_scans (scans
                 \<lparr>startTimestamp = 0, endTimestamp = 20,
                  scans = [(''A'', [\<lparr>time = 10, rssi = - 20, address = ''D''\<rparr>])]\<rparr>))
             then Some \<lparr>path_x = replicate (length [0 :: int]) NaN,
                        path_y = replicate (length [0 :: int]) NaN\<rparr>
             else None))"
proof -
  have sts: "startTimes_of
       \<lparr>startTimestamp = 0, endTimestamp = 20,
        scans = [(''A'', [\<lparr>time = 10, rssi = - 20, address = ''D''\<rparr>])]\<rparr> 20 20 = Inr [0]"
    by code_simp
  have short: "length [0::int] \<le> 1" by simp
  show ?thesis
    by (rule single_bucket_no_position [OF sts short])
qed

text \<open>
  C1. On the dataset of the scenario (node \<open>A\<close> at the origin, device \<open>D\<close>, one scan at
  time 10 with rssi \<open>-60\<close>, window 20, step 20, time range 0 to 20) the code has one
  bucket and the average \<open>-60\<close>, as the claim says, but the position it returns for
  \<open>D\<close> in bucket 0 is \<open>(NaN, NaN)\<close>, not \<open>(0, 0)\<close>: the frequency output has no node for
  \<open>D\<close>, so the weight \<open>2025\<close> of node \<open>A\<close> is never added, whatever the float
  operations are.
\<close>

theorem single_scan_scenario:
  "startTimes_of
     \<lparr>startTimestamp = 0, endTimestamp = 20,
      scans = [(''A'', [\<lparr>time = 10, rssi = - 60, address = ''D''\<rparr>])]\<rparr> 20 20 = Inr [0] \<and>
   getAverageRssiPerDevicePerNode
     \<lparr>startTimestamp = 0, endTimestamp = 20,
      scans = [(''A'', [\<lparr>time = 10, rssi = - 60, address = ''D''\<rparr>])]\<rparr> 20 20 =
     Inr \<lparr>startTimes = [0], avgRssiPerDev = [(''D'', [(''A'', [- 60])])]\<rparr> \<and>
   getFrequencyPerDevicePerNode
     \<lparr>startTimestamp = 0, endTimestamp = 20,
      scans = [(''A'', [\<lparr>time = 10, rssi = - 60, address = ''D''\<rparr>])]\<rparr> 20 20 =
     Inr \<lparr>startTimes = [0], numScansPerDev = [(''D'', [])]\<rparr> \<and>
   getPathPerDevice fo
     \<lparr>startTimestamp = 0, endTimestamp = 20,
      scans = [(''A'', [\<lparr>time = 10, rssi = - 60, address = ''D''\<rparr>])]\<rparr> 20 20
     [(''A'', \<lparr>loc_x = 0, loc_y = 0\<rparr>)] =
     Inr \<lparr>startTimes = [0],
          pathPerDevice = [(''D'', \<lparr>path_x = [NaN], path_y = [NaN]\<rparr>)]\<rparr>"
  by code_simp

section \<open>Float rounding\<close>

lemma pow2_pos: "0 < pow2 e"
  by (simp add: pow2_def)

lemma pow2_Suc: "pow2 (e + 1) = 2 * pow2 e"
proof (cases "0 \<le> e")
  case True
  then have "nat (e + 1) = Suc (nat e)" by simp
  then show ?thesis using True by (simp add: pow2_def)
next
  case False
  then have "nat (- e) = Suc (nat (- (e + 1)))" by simp
  then show ?thesis using False by (simp add: pow2_def)
qed

lemma pow2_pred: "pow2 (e - 1) = pow2 e / 2"
  using pow2_Suc [of "e - 1"] by simp

lemma float_exp_bounds:
  "0 < x \<Longrightarrow> pow2 (float_exp x) \<le> x \<and> x < pow2 (float_exp x + 1)"
proof (induction x rule: float_exp.induct)
  case (1 x)
  have pos: "\<not> x \<le> 0" using 1 by simp
  show ?case
  proof (cases "2 \<le> x")
    case True
    have e: "float_exp x = float_exp (x / 2) + 1"
      using pos True by (subst float_exp.simps) simp
    define k where "k = float_exp (x / 2)"
    have ih: "pow2 k \<le> x / 2 \<and> x / 2 < pow2 (k + 1)"
      unfolding k_def using "1.IH"(1) [OF pos True] "1.prems" by simp
    have "pow2 (k + 1) = 2 * pow2 k" "pow2 (k + 1 + 1) = 2 * pow2 (k + 1)"
      by (rule pow2_Suc)+
    then show ?thesis unfolding e k_def [symmetric] using ih by simp
  next
    case False
    show ?thesis
    proof (cases "x < 1")
      case True
      have e: "float_exp x = float_exp (x * 2) - 1"
        using pos False True by (subst float_exp.simps) simp
      define k where "k = float_exp (x * 2)"
      have ih: "pow2 k \<le> x * 2 \<and> x * 2 < pow2 (k + 1)"
        unfolding k_def using "1.IH"(2) [OF pos False True] "1.prems" by simp
      have "pow2 (k + 1) = 2 * pow2 k" "pow2 (k - 1) = pow2 k / 2"
        by (rule pow2_Suc, rule pow2_pred)
      then show ?thesis unfolding e k_def [symmetric] using ih by simp
    next
      case big: False
      have e: "float_exp x = 0"
        using pos False big by (subst float_exp.simps) simp
      show ?thesis unfolding e using False big by (simp add: pow2_def)
    qed
  qed
qed


lemma pow2_nonpos: "e \<le> 0 \<Longrightarrow> pow2 e = 1 / 2 ^ nat (- e)"
  by (cases "e = 0") (simp_all add: pow2_def)

lemma round_even_of_int: "round_even (of_int k) = k"
  by (simp add: round_even_def)

lemma double_round_of_int:
  assumes "\<bar>n\<bar> < 2 ^ 53"
  shows "double_round (of_int n) = of_int n"
proof (cases "n = 0")
  case True
  then show ?thesis by (simp add: double_round_def)
next
  case False
  define x :: rat where "x = \<bar>of_int n\<bar>"
  define e where "e = float_exp x"
  have x1: "1 \<le> x"
  proof -
    have "1 \<le> \<bar>n\<bar>" using False by simp
    then have "(1 :: rat) \<le> of_int \<bar>n\<bar>" by (simp only: of_int_1_le_iff)
    then show ?thesis by (simp add: x_def)
  qed
  have xb: "x < 2 ^ 53"
  proof -
    have "(of_int \<bar>n\<bar> :: rat) < of_int (2 ^ 53)" using assms by (simp only: of_int_less_iff)
    then show ?thesis by (simp add: x_def)
  qed
  have b: "pow2 e \<le> x" "x < pow2 (e + 1)"
    using float_exp_bounds [of x] x1 by (simp_all add: e_def)
  have e0: "0 \<le> e"
  proof (rule ccontr)
    assume "\<not> 0 \<le> e"
    then have "e + 1 \<le> 0" by simp
    then have "pow2 (e + 1) = 1 / 2 ^ nat (- (e + 1))" by (rule pow2_nonpos)
    also have "\<dots> \<le> 1" by simp
    finally show False using b(2) x1 by simp
  qed
  have e52: "e \<le> 52"
  proof (rule ccontr)
    assume "\<not> e \<le> 52"
    then have "53 \<le> nat e" by simp
    then have "(2 :: rat) ^ 53 \<le> 2 ^ nat e" by (intro power_increasing) simp_all
    also have "\<dots> = pow2 e" using e0 by (simp add: pow2_def)
    finally show False using b(1) xb by simp
  qed
  define k where "k = nat (52 - e)"
  have q: "pow2 (max e (- 1022) - 52) = 1 / 2 ^ k"
  proof -
    have "max e (- 1022) = e" using e0 by simp
    moreover have "pow2 (e - 52) = 1 / 2 ^ nat (- (e - 52))"
      using e52 by (intro pow2_nonpos) simp
    ultimately show ?thesis by (simp add: k_def)
  qed
  have scaled: "(of_int n :: rat) / (1 / 2 ^ k) = of_int (n * 2 ^ k)" by simp
  have "double_round (of_int n) = of_int (round_even (of_int n / (1 / 2 ^ k))) * (1 / 2 ^ k)"
    using False by (simp add: double_round_def Let_def x_def [symmetric] e_def [symmetric] q)
  also have "\<dots> = of_int (n * 2 ^ k) * (1 / 2 ^ k)"
    unfolding scaled round_even_of_int ..
  also have "\<dots> = of_int n" by simp
  finally show ?thesis .
qed


lemma round_even_nearest: "\<bar>of_int (round_even r) - r\<bar> \<le> 1 / 2"
proof -
  define f where "f = \<lfloor>r\<rfloor>"
  define d where "d = r - of_int f"
  have d: "0 \<le> d" "d < 1" unfolding d_def f_def by linarith+
  have r: "r = of_int f + d" by (simp add: d_def)
  have re: "round_even r =
      (if d < 1 / 2 then f else if 1 / 2 < d then f + 1 else if even f then f else f + 1)"
    by (simp add: round_even_def Let_def f_def d_def)
  have "round_even r = f \<and> d \<le> 1 / 2 \<or> round_even r = f + 1 \<and> 1 / 2 \<le> d"
    unfolding re by auto
  then show ?thesis
  proof
    assume "round_even r = f \<and> d \<le> 1 / 2"
    then have "of_int (round_even r) - r = - d" "d \<le> 1 / 2" by (simp_all add: d_def)
    then show ?thesis using d by simp
  next
    assume "round_even r = f + 1 \<and> 1 / 2 \<le> d"
    then have "of_int (round_even r) - r = 1 - d" "1 / 2 \<le> d" by (simp_all add: d_def)
    then show ?thesis using d by simp
  qed
qed

lemma double_round_nearest:
  "\<bar>double_round x - x\<bar> \<le> pow2 (max (float_exp \<bar>x\<bar>) (- 1022) - 52) / 2"
proof (cases "x = 0")
  case True
  then show ?thesis using pow2_pos [of "max (float_exp \<bar>x\<bar>) (- 1022) - 52"]
    by (simp add: double_round_def)
next
  case False
  define q where "q = pow2 (max (float_exp \<bar>x\<bar>) (- 1022) - 52)"
  have q: "0 < q" unfolding q_def by (rule pow2_pos)
  have dr: "double_round x = of_int (round_even (x / q)) * q"
    using False by (simp add: double_round_def Let_def q_def)
  have "double_round x - x = (of_int (round_even (x / q)) - x / q) * q"
    unfolding dr using q by (simp add: field_simps)
  then have "\<bar>double_round x - x\<bar> = \<bar>of_int (round_even (x / q)) - x / q\<bar> * q"
    using q by (simp add: abs_mult)
  also have "\<dots> \<le> 1 / 2 * q"
    using round_even_nearest [of "x / q"] q by (intro mult_right_mono) simp_all
  finally show ?thesis by (simp add: q_def)
qed

lemma double_ops_simps:
  "fl_of double_ops x = double_round x"
  "fl_add double_ops a b = double_round (a + b)"
  "fl_mul double_ops a b = double_round (a * b)"
  "fl_div double_ops a b = double_round (a / b)"
  "fl_sq double_ops a = double_round (a * a)"
  by (simp_all add: double_ops_def)

lemma double_round_values:
  "double_round 0 = 0"
  "double_round (- 105) = - 105"
  "double_round (- 80) = - 80"
  "double_round (- 60) = - 60"
  "double_round 5 = 5"
  "double_round 25 = 25"
  "double_round 45 = 45"
  "double_round 625 = 625"
  "double_round 2025 = 2025"
  "double_round 4050 = 4050"
  "double_round (1 / 2) = 1 / 2"
  by (simp_all add: double_round_def pow2_def round_even_def float_exp.simps Let_def)

section \<open>Positions and missing locations\<close>

lemma getFrequency_Inr:
  assumes "getFrequencyPerDevicePerNode dset windowSize stepSize = Inr fr"
  shows "startTimes_of dset windowSize stepSize = Inr (startTimes fr) \<and>
         numScansPerDev fr = fold (freq_dev (startTimes fr) windowSize)
                               (scansPerDev (getScansPerDevicePerNode dset)) []"
proof (cases "startTimes_of dset windowSize stepSize")
  case (Inl e)
  then show ?thesis using assms by (simp add: getFrequencyPerDevicePerNode_def Let_def)
next
  case (Inr sts)
  from getFrequency_result [OF Inr] assms
  have "fr = \<lparr>startTimes = sts,
          numScansPerDev = fold (freq_dev sts windowSize)
                             (scansPerDev (getScansPerDevicePerNode dset)) []\<rparr>" by simp
  then show ?thesis using Inr by simp
qed

lemma getAverage_Inr:
  assumes "getAverageRssiPerDevicePerNode dset windowSize stepSize = Inr av"
  shows "startTimes_of dset windowSize stepSize = Inr (startTimes av) \<and>
         avgRssiPerDev av = fold (avg_dev (startTimes av) windowSize)
                               (scansPerDev (getScansPerDevicePerNode dset)) []"
proof (cases "startTimes_of dset windowSize stepSize")
  case (Inl e)
  then show ?thesis using assms by (simp add: getAverageRssiPerDevicePerNode_def Let_def)
next
  case (Inr sts)
  from getAverage_result [OF Inr] assms
  have "av = \<lparr>startTimes = sts,
          avgRssiPerDev = fold (avg_dev sts windowSize)
                             (scansPerDev (getScansPerDevicePerNode dset)) []\<rparr>" by simp
  then show ?thesis using Inr by simp
qed

lemma path_devices_fail_device:
  assumes inv: "index_inv spd"
      and ns: "ns = fold (freq_dev sts windowSize) spd []"
      and av: "av = fold (avg_dev sts windowSize) spd []"
      and fails: "any_fails fo ns av locs (length sts)"
  shows "\<exists>e. (\<exists>(d, m) \<in> set ns. \<exists>a. map_of av d = Some a \<and>
                  dev_fails fo a locs (map fst m) (length sts) \<and> missing_in locs (map fst m) e) \<and>
              foldE (path_dev fo av locs sts) ns paths = Inl e"
proof (rule foldE_fails)
  let ?P = "\<lambda>e. \<exists>(d, m) \<in> set ns. \<exists>a. map_of av d = Some a \<and>
                  dev_fails fo a locs (map fst m) (length sts) \<and> missing_in locs (map fst m) e"
  show "\<forall>x \<in> set ns. \<forall>s. (\<exists>s'. path_dev fo av locs sts x s = Inr s') \<or>
          (\<exists>e. ?P e \<and> path_dev fo av locs sts x s = Inl e)"
  proof (intro ballI allI)
    fix x s assume x: "x \<in> set ns"
    obtain d m where dm: "x = (d, m)" by (cases x)
    obtain a where a: "map_of av d = Some a" "avg_covers a (map fst m) (length sts)"
      using outputs_consistent [OF inv, of d m sts windowSize] x unfolding ns av dm by blast
    show "(\<exists>s'. path_dev fo av locs sts x s = Inr s') \<or>
          (\<exists>e. ?P e \<and> path_dev fo av locs sts x s = Inl e)"
    proof (cases "dev_fails fo a locs (map fst m) (length sts)")
      case True
      from path_dev_fail [OF a True, of s]
      obtain e where e: "missing_in locs (map fst m) e" "path_dev fo av locs sts (d, m) s = Inl e"
        by blast
      have "?P e" using x a(1) True e(1) unfolding dm by blast
      then show ?thesis using e(2) unfolding dm by blast
    next
      case False
      from path_dev_ok [OF a False, of s] show ?thesis unfolding dm by blast
    qed
  qed
next
  let ?P = "\<lambda>e. \<exists>(d, m) \<in> set ns. \<exists>a. map_of av d = Some a \<and>
                  dev_fails fo a locs (map fst m) (length sts) \<and> missing_in locs (map fst m) e"
  from fails obtain d m where x: "(d, m) \<in> set ns"
    and f: "dev_fails fo (olist (map_of av d)) locs (map fst m) (length sts)"
    unfolding any_fails_def by blast
  obtain a where a: "map_of av d = Some a" "avg_covers a (map fst m) (length sts)"
    using outputs_consistent [OF inv, of d m sts windowSize] x unfolding ns av by blast
  have f': "dev_fails fo a locs (map fst m) (length sts)" using f a(1) by (simp add: olist_def)
  have always: "\<forall>s. \<exists>e. ?P e \<and> path_dev fo av locs sts (d, m) s = Inl e"
  proof
    fix s
    from path_dev_fail [OF a f', of s]
    obtain e where e: "missing_in locs (map fst m) e" "path_dev fo av locs sts (d, m) s = Inl e"
      by blast
    have "?P e" using x a(1) f' e(1) by blast
    then show "\<exists>e. ?P e \<and> path_dev fo av locs sts (d, m) s = Inl e" using e(2) by blast
  qed
  show "\<exists>x \<in> set ns. \<forall>s. \<exists>e. ?P e \<and> path_dev fo av locs sts x s = Inl e"
    using x always by blast
qed

lemma any_fails_iff:
  assumes inv: "index_inv spd"
      and ns: "ns = fold (freq_dev sts windowSize) spd []"
      and av: "av = fold (avg_dev sts windowSize) spd []"
  shows "any_fails fo ns av locs (length sts) \<longleftrightarrow>
     (\<exists>d m a i n. (d, m) \<in> set ns \<and> map_of av d = Some a \<and> i < length sts \<and>
        1 \<le> weight_sum fo a (map fst m) i \<and> n \<in> fst ` set m \<and> map_of locs n = None)"
proof
  assume "any_fails fo ns av locs (length sts)"
  then obtain d m where x: "(d, m) \<in> set ns"
    and f: "dev_fails fo (olist (map_of av d)) locs (map fst m) (length sts)"
    unfolding any_fails_def by blast
  obtain a where a: "map_of av d = Some a"
    using outputs_consistent [OF inv, of d m sts windowSize] x unfolding ns av by blast
  have "dev_fails fo a locs (map fst m) (length sts)" using f a by (simp add: olist_def)
  then obtain i n where "i < length sts" "\<not> weight_sum fo a (map fst m) i < 1"
      "n \<in> set (map fst m)" "map_of locs n = None"
    unfolding dev_fails_def by blast
  then have "i < length sts \<and> 1 \<le> weight_sum fo a (map fst m) i \<and> n \<in> fst ` set m \<and> map_of locs n = None"
    by (simp add: not_less)
  then show "\<exists>d m a i n. (d, m) \<in> set ns \<and> map_of av d = Some a \<and> i < length sts \<and>
        1 \<le> weight_sum fo a (map fst m) i \<and> n \<in> fst ` set m \<and> map_of locs n = None"
    using x a by blast
next
  assume "\<exists>d m a i n. (d, m) \<in> set ns \<and> map_of av d = Some a \<and> i < length sts \<and>
        1 \<le> weight_sum fo a (map fst m) i \<and> n \<in> fst ` set m \<and> map_of locs n = None"
  then obtain d m a i n where h: "(d, m) \<in> set ns" "map_of av d = Some a" "i < length sts"
        "1 \<le> weight_sum fo a (map fst m) i" "n \<in> fst ` set m" "map_of locs n = None"
    by blast
  have "dev_fails fo a locs (map fst m) (length sts)"
    unfolding dev_fails_def using h(3,4,5,6) by (auto simp: not_less)
  then have "dev_fails fo (olist (map_of av d)) locs (map fst m) (length sts)"
    using h(2) by (simp add: olist_def)
  then show "any_fails fo ns av locs (length sts)"
    unfolding any_fails_def using h(1) by blast
qed

lemma any_fails_avg:
  assumes inv: "index_inv spd"
      and two: "2 \<le> length sts"
      and ns: "ns = fold (freq_dev sts windowSize) spd []"
      and av: "av = fold (avg_dev sts windowSize) spd []"
  shows "any_fails fo ns av locs (length sts) \<longleftrightarrow>
     (\<exists>d a i n. map_of av d = Some a \<and> i < length sts \<and>
        1 \<le> weight_sum fo a (map fst a) i \<and> n \<in> fst ` set a \<and> map_of locs n = None)"
proof
  assume "any_fails fo ns av locs (length sts)"
  then obtain d m a i n where h: "(d, m) \<in> set ns" "map_of av d = Some a" "i < length sts"
        "1 \<le> weight_sum fo a (map fst m) i" "n \<in> fst ` set m" "map_of locs n = None"
    unfolding any_fails_iff [OF inv ns av] by blast
  have keys: "map fst m = map fst a"
    using same_nodes [OF inv two] h(1,2) unfolding ns av by blast
  have "n \<in> set (map fst m)" using h(5) by simp
  then have "n \<in> fst ` set a" unfolding keys by simp
  moreover have "1 \<le> weight_sum fo a (map fst a) i" using h(4) unfolding keys .
  ultimately show "\<exists>d a i n. map_of av d = Some a \<and> i < length sts \<and>
        1 \<le> weight_sum fo a (map fst a) i \<and> n \<in> fst ` set a \<and> map_of locs n = None"
    using h(2,3,6) by blast
next
  assume "\<exists>d a i n. map_of av d = Some a \<and> i < length sts \<and>
        1 \<le> weight_sum fo a (map fst a) i \<and> n \<in> fst ` set a \<and> map_of locs n = None"
  then obtain d a i n where h: "map_of av d = Some a" "i < length sts"
        "1 \<le> weight_sum fo a (map fst a) i" "n \<in> fst ` set a" "map_of locs n = None"
    by blast
  obtain m where m: "(d, m) \<in> set ns"
    using freq_entry_exists [OF inv] h(1) unfolding ns av by blast
  have keys: "map fst m = map fst a"
    using same_nodes [OF inv two] m h(1) unfolding ns av by blast
  have "n \<in> set (map fst a)" using h(4) by simp
  then have "n \<in> fst ` set m" unfolding keys [symmetric] by simp
  moreover have "1 \<le> weight_sum fo a (map fst m) i" using h(3) unfolding keys .
  ultimately have "\<exists>d m a i n. (d, m) \<in> set ns \<and> map_of av d = Some a \<and> i < length sts \<and>
        1 \<le> weight_sum fo a (map fst m) i \<and> n \<in> fst ` set m \<and> map_of locs n = None"
    using m h(1,2,5) by blast
  then show "any_fails fo ns av locs (length sts)"
    unfolding any_fails_iff [OF inv ns av] .
qed

text \<open>
  C2. The claim takes, for a device, every node that has an entry for it. On a dataset
  with one bucket (nodes \<open>A\<close> at \<open>(0, 0)\<close> and \<open>B\<close> at \<open>(10, 0)\<close>, device \<open>D\<close>, one scan of
  \<open>D\<close> by each node at time 10 with rssi \<open>-60\<close>, window 20, step 20, time range 0 to 20)
  both nodes have the average \<open>-60\<close> for \<open>D\<close>: each weight is \<open>2025\<close>, their sum \<open>4050\<close>
  is not below 1 and the weighted centroid is \<open>(5, 0)\<close>. The code returns \<open>(NaN, NaN)\<close>
  for \<open>D\<close> in bucket 0, whatever the float operations are: it takes the nodes from the
  frequency output, which has no node for \<open>D\<close> when there is a single bucket.
\<close>

theorem two_nodes_single_bucket:
  "getAverageRssiPerDevicePerNode
     \<lparr>startTimestamp = 0, endTimestamp = 20,
      scans = [(''A'', [\<lparr>time = 10, rssi = - 60, address = ''D''\<rparr>]),
               (''B'', [\<lparr>time = 10, rssi = - 60, address = ''D''\<rparr>])]\<rparr> 20 20 =
     Inr \<lparr>startTimes = [0], avgRssiPerDev = [(''D'', [(''A'', [- 60]), (''B'', [- 60])])]\<rparr> \<and>
   node_weight double_ops [(''A'', [- 60]), (''B'', [- 60])] 0 ''A'' = 2025 \<and>
   node_weight double_ops [(''A'', [- 60]), (''B'', [- 60])] 0 ''B'' = 2025 \<and>
   weight_sum double_ops [(''A'', [- 60]), (''B'', [- 60])] [''A'', ''B''] 0 = 4050 \<and>
   centroid double_ops [(''A'', [- 60]), (''B'', [- 60])]
     (node_x [(''A'', \<lparr>loc_x = 0, loc_y = 0\<rparr>), (''B'', \<lparr>loc_x = 10, loc_y = 0\<rparr>)])
     [''A'', ''B''] 0 = Num 5 \<and>
   centroid double_ops [(''A'', [- 60]), (''B'', [- 60])]
     (node_y [(''A'', \<lparr>loc_x = 0, loc_y = 0\<rparr>), (''B'', \<lparr>loc_x = 10, loc_y = 0\<rparr>)])
     [''A'', ''B''] 0 = Num 0 \<and>
   getFrequencyPerDevicePerNode
     \<lparr>startTimestamp = 0, endTimestamp = 20,
      scans = [(''A'', [\<lparr>time = 10, rssi = - 60, address = ''D''\<rparr>]),
               (''B'', [\<lparr>time = 10, rssi = - 60, address = ''D''\<rparr>])]\<rparr> 20 20 =
     Inr \<lparr>startTimes = [0], numScansPerDev = [(''D'', [])]\<rparr> \<and>
   getPathPerDevice fo
     \<lparr>startTimestamp = 0, endTimestamp = 20,
      scans = [(''A'', [\<lparr>time = 10, rssi = - 60, address = ''D''\<rparr>]),
               (''B'', [\<lparr>time = 10, rssi = - 60, address = ''D''\<rparr>])]\<rparr> 20 20
     [(''A'', \<lparr>loc_x = 0, loc_y = 0\<rparr>), (''B'', \<lparr>loc_x = 10, loc_y = 0\<rparr>)] =
     Inr \<lparr>startTimes = [0],
          pathPerDevice = [(''D'', \<lparr>path_x = [NaN], path_y = [NaN]\<rparr>)]\<rparr>"
proof -
  let ?D = "\<lparr>startTimestamp = 0, endTimestamp = 20,
      scans = [(''A'', [\<lparr>time = 10, rssi = - 60, address = ''D''\<rparr>]),
               (''B'', [\<lparr>time = 10, rssi = - 60, address = ''D''\<rparr>])]\<rparr>"
  let ?a = "[(''A'', [- 60]), (''B'', [- 60 :: rat])]"
  let ?locs = "[(''A'', \<lparr>loc_x = 0, loc_y = 0\<rparr>), (''B'', \<lparr>loc_x = 10, loc_y = 0\<rparr>)]"
  have avg: "getAverageRssiPerDevicePerNode ?D 20 20 =
      Inr \<lparr>startTimes = [0], avgRssiPerDev = [(''D'', ?a)]\<rparr>"
    by code_simp
  have fr: "getFrequencyPerDevicePerNode ?D 20 20 =
      Inr \<lparr>startTimes = [0], numScansPerDev = [(''D'', [])]\<rparr>"
    by code_simp
  have p: "getPathPerDevice fo ?D 20 20 ?locs =
      Inr \<lparr>startTimes = [0],
           pathPerDevice = [(''D'', \<lparr>path_x = [NaN], path_y = [NaN]\<rparr>)]\<rparr>"
    by code_simp
  have wA: "node_weight double_ops ?a 0 ''A'' = 2025"
    by (simp add: node_weight_def double_ops_simps double_round_values)
  have wB: "node_weight double_ops ?a 0 ''B'' = 2025"
    by (simp add: node_weight_def double_ops_simps double_round_values)
  have ws: "weight_sum double_ops ?a [''A'', ''B''] 0 = 4050"
    by (simp add: weight_sum_def wA wB double_ops_simps double_round_values)
  have cx: "centroid double_ops ?a (node_x ?locs) [''A'', ''B''] 0 = Num 5"
    by (simp add: centroid_def ws wA wB node_x_def double_ops_simps double_round_values)
  have cy: "centroid double_ops ?a (node_y ?locs) [''A'', ''B''] 0 = Num 0"
    by (simp add: centroid_def ws wA wB node_y_def double_ops_simps double_round_values)
  show ?thesis
    by (intro conjI) (rule avg wA wB ws cx cy fr p)+
qed

text \<open>
  The test of line 159 is on the float sum. Node \<open>A\<close> has the average \<open>-104.4\<close> and node
  \<open>B\<close> the average \<open>-104.2\<close> in the second of two buckets: the exact weights \<open>(3/5)\<^sup>2\<close>
  and \<open>(4/5)\<^sup>2\<close> have the sum 1, the float weights have the sum
  \<open>0.9999999999999887\<close>, which is below \<open>1.0\<close>. The position is \<open>NaN\<close> and no location is
  looked up.
\<close>

lemma rounded_weight_sum_below_one:
  "(- 522 / 5 + 105)\<^sup>2 + (- 521 / 5 + 105)\<^sup>2 = (1 :: rat) \<and>
   getAverageRssiPerDevicePerNode
     \<lparr>startTimestamp = 0, endTimestamp = 40,
      scans = [(''A'', [\<lparr>time = 21, rssi = - 104, address = ''D''\<rparr>,
                        \<lparr>time = 22, rssi = - 104, address = ''D''\<rparr>,
                        \<lparr>time = 23, rssi = - 104, address = ''D''\<rparr>,
                        \<lparr>time = 24, rssi = - 105, address = ''D''\<rparr>,
                        \<lparr>time = 25, rssi = - 105, address = ''D''\<rparr>]),
               (''B'', [\<lparr>time = 21, rssi = - 104, address = ''D''\<rparr>,
                        \<lparr>time = 22, rssi = - 104, address = ''D''\<rparr>,
                        \<lparr>time = 23, rssi = - 104, address = ''D''\<rparr>,
                        \<lparr>time = 24, rssi = - 104, address = ''D''\<rparr>,
                        \<lparr>time = 25, rssi = - 105, address = ''D''\<rparr>])]\<rparr> 20 20 =
     Inr \<lparr>startTimes = [0, 20],
          avgRssiPerDev = [(''D'', [(''A'', [- 105, - 522 / 5]), (''B'', [- 105, - 521 / 5])])]\<rparr> \<and>
   weight_sum double_ops [(''A'', [- 105, - 522 / 5]), (''B'', [- 105, - 521 / 5])] [''A'', ''B''] 1 =
     4503599627370445 / 4503599627370496 \<and>
   getPathPerDevice double_ops
     \<lparr>startTimestamp = 0, endTimestamp = 40,
      scans = [(''A'', [\<lparr>time = 21, rssi = - 104, address = ''D''\<rparr>,
                        \<lparr>time = 22, rssi = - 104, address = ''D''\<rparr>,
                        \<lparr>time = 23, rssi = - 104, address = ''D''\<rparr>,
                        \<lparr>time = 24, rssi = - 105, address = ''D''\<rparr>,
                        \<lparr>time = 25, rssi = - 105, address = ''D''\<rparr>]),
               (''B'', [\<lparr>time = 21, rssi = - 104, address = ''D''\<rparr>,
                        \<lparr>time = 22, rssi = - 104, address = ''D''\<rparr>,
                        \<lparr>time = 23, rssi = - 104, address = ''D''\<rparr>,
                        \<lparr>time = 24, rssi = - 104, address = ''D''\<rparr>,
                        \<lparr>time = 25, rssi = - 105, address = ''D''\<rparr>])]\<rparr> 20 20 [] =
     Inr \<lparr>startTimes = [0, 20],
          pathPerDevice = [(''D'', \<lparr>path_x = [NaN, NaN], path_y = [NaN, NaN]\<rparr>)]\<rparr>"
proof -
  let ?V = "\<lparr>startTimestamp = 0, endTimestamp = 40,
      scans = [(''A'', [\<lparr>time = 21, rssi = - 104, address = ''D''\<rparr>,
                        \<lparr>time = 22, rssi = - 104, address = ''D''\<rparr>,
                        \<lparr>time = 23, rssi = - 104, address = ''D''\<rparr>,
                        \<lparr>time = 24, rssi = - 105, address = ''D''\<rparr>,
                        \<lparr>time = 25, rssi = - 105, address = ''D''\<rparr>]),
               (''B'', [\<lparr>time = 21, rssi = - 104, address = ''D''\<rparr>,
                        \<lparr>time = 22, rssi = - 104, address = ''D''\<rparr>,
                        \<lparr>time = 23, rssi = - 104, address = ''D''\<rparr>,
                        \<lparr>time = 24, rssi = - 104, address = ''D''\<rparr>,
                        \<lparr>time = 25, rssi = - 105, address = ''D''\<rparr>])]\<rparr>"
  let ?a = "[(''A'', [- 105, - 522 / 5]), (''B'', [- 105, - 521 / 5 :: rat])]"
  let ?m = "[(''A'', [5]), (''B'', [5 :: rat])]"
  have ex: "(- 522 / 5 + 105)\<^sup>2 + (- 521 / 5 + 105)\<^sup>2 = (1 :: rat)"
    by (simp add: power2_eq_square)
  have avg: "getAverageRssiPerDevicePerNode ?V 20 20 =
      Inr \<lparr>startTimes = [0, 20], avgRssiPerDev = [(''D'', ?a)]\<rparr>"
    by code_simp
  have fr: "getFrequencyPerDevicePerNode ?V 20 20 =
      Inr \<lparr>startTimes = [0, 20], numScansPerDev = [(''D'', ?m)]\<rparr>"
    by code_simp
  have w0: "weight_sum double_ops ?a [''A'', ''B''] 0 = 0"
    by (simp add: weight_sum_def node_weight_def double_ops_simps double_round_values)
  have wA: "node_weight double_ops ?a (Suc 0) ''A'' = 6485183463413391 / 18014398509481984"
    by code_simp
  have wB: "node_weight double_ops ?a (Suc 0) ''B'' = 2882303761517097 / 4503599627370496"
    by code_simp
  have sum: "double_round (double_round (0 + 6485183463413391 / 18014398509481984) +
                 2882303761517097 / 4503599627370496) = 4503599627370445 / 4503599627370496"
    by code_simp
  have "weight_sum double_ops ?a [''A'', ''B''] (Suc 0) =
      fl_add double_ops (fl_add double_ops 0 (node_weight double_ops ?a (Suc 0) ''A''))
        (node_weight double_ops ?a (Suc 0) ''B'')"
    by (simp add: weight_sum_def)
  also have "\<dots> = double_round (double_round (0 + 6485183463413391 / 18014398509481984) +
                 2882303761517097 / 4503599627370496)"
    unfolding wA wB double_ops_simps ..
  finally have w1: "weight_sum double_ops ?a [''A'', ''B''] (Suc 0) =
      4503599627370445 / 4503599627370496"
    unfolding sum .
  have small: "weight_sum double_ops ?a [''A'', ''B''] i < 1" if "i < Suc (Suc 0)" for i
  proof -
    have "i = 0 \<or> i = Suc 0" using that by auto
    then show ?thesis using w0 w1 by auto
  qed
  have cov: "avg_covers ?a (map fst ?m) (length [0, 20 :: int])"
    by (simp add: avg_covers_def)
  have nf: "\<not> dev_fails double_ops ?a [] (map fst ?m) (length [0, 20 :: int])"
    using small by (simp add: dev_fails_def)
  have look: "map_of [(''D'', ?a)] ''D'' = Some ?a" by simp
  have dev: "path_dev double_ops [(''D'', ?a)] [] [0, 20] (''D'', ?m) [] =
      Inr (AList.update ''D'' (dev_path double_ops ?a [] (map fst ?m) (length [0, 20 :: int])) [])"
    by (rule path_dev_ok [OF look cov nf])
  have nan: "centroid double_ops ?a pos [''A'', ''B''] i = NaN" if "i < Suc (Suc 0)" for i pos
    using small [OF that] by (simp add: centroid_def)
  have path: "dev_path double_ops ?a [] (map fst ?m) (length [0, 20 :: int]) =
      \<lparr>path_x = [NaN, NaN], path_y = [NaN, NaN]\<rparr>"
    using nan [of 0] nan [of "Suc 0"] by (simp add: dev_path_def)
  have p: "getPathPerDevice double_ops ?V 20 20 [] =
      Inr \<lparr>startTimes = [0, 20],
           pathPerDevice = [(''D'', \<lparr>path_x = [NaN, NaN], path_y = [NaN, NaN]\<rparr>)]\<rparr>"
    unfolding getPathPerDevice_def fr avg using dev path by simp
  have w1': "weight_sum double_ops ?a [''A'', ''B''] 1 = 4503599627370445 / 4503599627370496"
    using w1 by simp
  show ?thesis
    by (intro conjI) (rule ex avg w1' p)+
qed

text \<open>
  C4 (as amended). For a dataset with at least two buckets, the nodes of a device in
  the frequency output are the nodes that have averages for it. \<open>getPathPerDevice\<close>
  looks a location up only in a bucket whose float \<open>weightSum\<close> is not below 1. It fails
  exactly when some device has such a bucket and a node with averages and without a
  location, and the error is then the \<open>KeyError\<close> of a node without a location of a
  device that has such a bucket. In every other case it returns, also when nodes with
  averages have no location.
\<close>

theorem getPathPerDevice_unknown_location:
  assumes av: "getAverageRssiPerDevicePerNode dset windowSize stepSize = Inr av"
      and two: "2 \<le> length (startTimes av)"
  shows "((\<exists>e. getPathPerDevice fo dset windowSize stepSize locs = Inl e) \<longleftrightarrow>
            (\<exists>d a i n. map_of (avgRssiPerDev av) d = Some a \<and>
                 i < length (startTimes av) \<and> 1 \<le> weight_sum fo a (map fst a) i \<and>
                 n \<in> fst ` set a \<and> map_of locs n = None)) \<and>
         (\<forall>e. getPathPerDevice fo dset windowSize stepSize locs = Inl e \<longrightarrow>
            (\<exists>d a i n. map_of (avgRssiPerDev av) d = Some a \<and>
                 i < length (startTimes av) \<and> 1 \<le> weight_sum fo a (map fst a) i \<and>
                 n \<in> fst ` set a \<and> map_of locs n = None \<and> e = KeyError n))"
proof -
  let ?spd = "scansPerDev (getScansPerDevicePerNode dset)"
  define sts where "sts = startTimes av"
  define ns where "ns = fold (freq_dev sts windowSize) ?spd []"
  define avg where "avg = fold (avg_dev sts windowSize) ?spd []"
  have sts: "startTimes_of dset windowSize stepSize = Inr sts"
    and avf: "avgRssiPerDev av = avg"
    using getAverage_Inr [OF av] by (simp_all add: sts_def avg_def)
  have two': "2 \<le> length sts" using two by (simp add: sts_def)
  have inv: "index_inv ?spd" by (rule index_inv_getScans)
  have unf: "getPathPerDevice fo dset windowSize stepSize locs =
     (case foldE (path_dev fo avg locs sts) ns [] of
        Inl e \<Rightarrow> Inl e
      | Inr paths \<Rightarrow> Inr \<lparr>startTimes = sts, pathPerDevice = paths\<rparr>)"
    unfolding ns_def avg_def by (rule getPath_unfold [OF sts])
  let ?cond = "\<exists>d a i n. map_of avg d = Some a \<and> i < length sts \<and>
        1 \<le> weight_sum fo a (map fst a) i \<and> n \<in> fst ` set a \<and> map_of locs n = None"
  have iff: "any_fails fo ns avg locs (length sts) \<longleftrightarrow> ?cond"
    by (rule any_fails_avg [OF inv two' ns_def avg_def])
  have named: "\<exists>d a i n. map_of avg d = Some a \<and> i < length sts \<and>
        1 \<le> weight_sum fo a (map fst a) i \<and> n \<in> fst ` set a \<and> map_of locs n = None \<and> e = KeyError n"
    if e: "getPathPerDevice fo dset windowSize stepSize locs = Inl e" for e
  proof (cases "any_fails fo ns avg locs (length sts)")
    case False
    from path_devices_ok [OF inv ns_def avg_def False]
    obtain paths where "foldE (path_dev fo avg locs sts) ns [] = Inr paths" by blast
    then show ?thesis using e unfolding unf by simp
  next
    case True
    from path_devices_fail_device [OF inv ns_def avg_def True, of "[]"]
    obtain e' where p: "\<exists>(d, m) \<in> set ns. \<exists>a. map_of avg d = Some a \<and>
                  dev_fails fo a locs (map fst m) (length sts) \<and> missing_in locs (map fst m) e'"
      and f: "foldE (path_dev fo avg locs sts) ns [] = Inl e'"
      by blast
    have "e = e'" using e f unfolding unf by simp
    from p obtain d m a where dm: "(d, m) \<in> set ns" "map_of avg d = Some a"
        "dev_fails fo a locs (map fst m) (length sts)" "missing_in locs (map fst m) e'"
      by blast
    have keys: "map fst m = map fst a"
      using same_nodes [OF inv two'] dm(1,2) unfolding ns_def avg_def by blast
    from dm(3) obtain i where i: "i < length sts" "\<not> weight_sum fo a (map fst a) i < 1"
      unfolding dev_fails_def keys by blast
    from dm(4) obtain n where n: "n \<in> set (map fst a)" "map_of locs n = None" "e' = KeyError n"
      unfolding missing_in_def keys by blast
    have "map_of avg d = Some a \<and> i < length sts \<and>
        1 \<le> weight_sum fo a (map fst a) i \<and> n \<in> fst ` set a \<and> map_of locs n = None \<and> e = KeyError n"
      using dm(2) i n \<open>e = e'\<close> by (simp add: not_less)
    then show ?thesis by blast
  qed
  have fails: "\<exists>e. getPathPerDevice fo dset windowSize stepSize locs = Inl e" if c: "?cond"
  proof -
    have "any_fails fo ns avg locs (length sts)" using iff c by blast
    from path_devices_fail_device [OF inv ns_def avg_def this, of "[]"]
    obtain e where "foldE (path_dev fo avg locs sts) ns [] = Inl e" by blast
    then show ?thesis unfolding unf by simp
  qed
  have "(\<exists>e. getPathPerDevice fo dset windowSize stepSize locs = Inl e) \<longleftrightarrow> ?cond"
  proof
    assume "\<exists>e. getPathPerDevice fo dset windowSize stepSize locs = Inl e"
    then obtain e where "getPathPerDevice fo dset windowSize stepSize locs = Inl e" by blast
    from named [OF this] show ?cond by blast
  next
    assume ?cond
    then show "\<exists>e. getPathPerDevice fo dset windowSize stepSize locs = Inl e" by (rule fails)
  qed
  then show ?thesis using named unfolding avf sts_def [symmetric] by blast
qed

theorem getPathPerDevice_unknown_location_witness:
  "\<exists>n. getPathPerDevice double_ops
          \<lparr>startTimestamp = 0, endTimestamp = 65,
        scans = [(''A'', [\<lparr>time = 10, rssi = - 60, address = ''D''\<rparr>,
                          \<lparr>time = 25, rssi = - 70, address = ''D''\<rparr>]),
                 (''B'', [\<lparr>time = 45, rssi = - 80, address = ''D''\<rparr>])]\<rparr> 20 20
          [(''A'', \<lparr>loc_x = 0, loc_y = 0\<rparr>)] = Inl (KeyError n) \<and>
        map_of [(''A'', \<lparr>loc_x = 0, loc_y = 0\<rparr>)] n = None"
proof -
  let ?D = "\<lparr>startTimestamp = 0, endTimestamp = 65,
        scans = [(''A'', [\<lparr>time = 10, rssi = - 60, address = ''D''\<rparr>,
                          \<lparr>time = 25, rssi = - 70, address = ''D''\<rparr>]),
                 (''B'', [\<lparr>time = 45, rssi = - 80, address = ''D''\<rparr>])]\<rparr>"
  let ?a = "[(''A'', [- 60, - 70, - 105]), (''B'', [- 105, - 105, - 80 :: rat])]"
  let ?av = "\<lparr>startTimes = [0, 20, 40], avgRssiPerDev = [(''D'', ?a)]\<rparr>"
  let ?locs = "[(''A'', \<lparr>loc_x = 0, loc_y = 0\<rparr>)]"
  have av: "getAverageRssiPerDevicePerNode ?D 20 20 = Inr ?av" by code_simp
  have two: "2 \<le> length (startTimes ?av)" by simp
  have w: "1 \<le> weight_sum double_ops ?a (map fst ?a) (Suc (Suc 0))"
    by (simp add: weight_sum_def node_weight_def double_ops_simps double_round_values)
  have "map_of (avgRssiPerDev ?av) ''D'' = Some ?a \<and> Suc (Suc 0) < length (startTimes ?av) \<and>
        1 \<le> weight_sum double_ops ?a (map fst ?a) (Suc (Suc 0)) \<and>
        ''B'' \<in> fst ` set ?a \<and> map_of ?locs ''B'' = None"
    using w by simp
  then have cond: "\<exists>d a i n. map_of (avgRssiPerDev ?av) d = Some a \<and>
                 i < length (startTimes ?av) \<and> 1 \<le> weight_sum double_ops a (map fst a) i \<and>
                 n \<in> fst ` set a \<and> map_of ?locs n = None"
    by blast
  from getPathPerDevice_unknown_location [OF av two, of double_ops ?locs] cond
  obtain e where e: "getPathPerDevice double_ops ?D 20 20 ?locs = Inl e" by blast
  with getPathPerDevice_unknown_location [OF av two, of double_ops ?locs]
  obtain n where "map_of ?locs n = None" "e = KeyError n" by blast
  with e show ?thesis by blast
qed

text \<open>
  C4 as stated fails: there are two buckets, node \<open>A\<close> has averages for device \<open>D\<close>
  (and an entry in the frequency output) and has no location, the only scan lies in
  neither window, so both buckets have weight 0, and the function returns \<open>NaN\<close>
  positions without an error.
\<close>

theorem missing_location_no_error_counterexample:
  "getFrequencyPerDevicePerNode
     \<lparr>startTimestamp = 0, endTimestamp = 45,
      scans = [(''A'', [\<lparr>time = 42, rssi = - 60, address = ''D''\<rparr>])]\<rparr> 20 20 =
     Inr \<lparr>startTimes = [0, 20], numScansPerDev = [(''D'', [(''A'', [0])])]\<rparr> \<and>
   getAverageRssiPerDevicePerNode
     \<lparr>startTimestamp = 0, endTimestamp = 45,
      scans = [(''A'', [\<lparr>time = 42, rssi = - 60, address = ''D''\<rparr>])]\<rparr> 20 20 =
     Inr \<lparr>startTimes = [0, 20], avgRssiPerDev = [(''D'', [(''A'', [- 105, - 105])])]\<rparr> \<and>
   map_of ([] :: (string, location) dict) ''A'' = None \<and>
   getPathPerDevice double_ops
     \<lparr>startTimestamp = 0, endTimestamp = 45,
      scans = [(''A'', [\<lparr>time = 42, rssi = - 60, address = ''D''\<rparr>])]\<rparr> 20 20 [] =
     Inr \<lparr>startTimes = [0, 20],
          pathPerDevice = [(''D'', \<lparr>path_x = [NaN, NaN], path_y = [NaN, NaN]\<rparr>)]\<rparr>"
  by code_simp

section \<open>Measurements by timestamp\<close>

lemma getTimedMeasurements_flat:
  "getTimedMeasurements kw_start kw_end timeKey ds =
     fold (\<lambda>(node, en). timed_step kw_start kw_end timeKey node en) (all_records ds)
       \<lparr>startTimestamp = - 1, endTimestamp = - 1, data = []\<rparr>"
proof -
  have nodes: "fold (\<lambda>(node, es) out. fold (timed_step kw_start kw_end timeKey node) es out) sc out =
        fold (\<lambda>(node, en). timed_step kw_start kw_end timeKey node en) (all_scans sc) out"
    for sc and out :: "'a timed_result"
  proof (induction sc arbitrary: out)
    case Nil
    then show ?case by (simp add: all_scans_def)
  next
    case (Cons p sc)
    obtain n ss where p: "p = (n, ss)" by (cases p)
    have inner: "fold (timed_step kw_start kw_end timeKey n) ss out =
        fold (\<lambda>(node, en). timed_step kw_start kw_end timeKey node en) (map (Pair n) ss) out"
      by (simp add: fold_map comp_def)
    have "all_scans (p # sc) = map (Pair n) ss @ all_scans sc"
      by (simp add: all_scans_def p)
    then show ?case using Cons.IH inner by (simp add: p)
  qed
  have "fold (\<lambda>d out. fold (\<lambda>(node, es) out. fold (timed_step kw_start kw_end timeKey node) es out)
                      (scans d) out) ds out =
        fold (\<lambda>(node, en). timed_step kw_start kw_end timeKey node en) (all_records ds) out"
    for out :: "'a timed_result"
  proof (induction ds arbitrary: out)
    case Nil
    then show ?case by (simp add: all_records_def)
  next
    case (Cons d ds)
    have "all_records (d # ds) = all_scans (scans d) @ all_records ds"
      by (simp add: all_records_def)
    then show ?case using Cons.IH nodes by simp
  qed
  then show ?thesis by (simp add: getTimedMeasurements_def)
qed

lemma timed_step_rejected:
  assumes "\<not> accepted kw_start kw_end (time en)"
  shows "timed_step kw_start kw_end timeKey node en out = out"
proof (cases "case kw_start of None \<Rightarrow> False | Some s \<Rightarrow> time en < s")
  case True
  then show ?thesis unfolding timed_step_def by (simp only: if_True)
next
  case False
  then have "case kw_end of None \<Rightarrow> False | Some e \<Rightarrow> time en > e"
    using assms by (auto simp: accepted_def split: option.splits)
  then show ?thesis unfolding timed_step_def using False by (simp only: if_True if_False)
qed

lemma timed_step_accepted:
  assumes "accepted kw_start kw_end (time en)"
  shows "startTimestamp (timed_step kw_start kw_end timeKey node en out) =
           (if time en < startTimestamp out \<or> startTimestamp out = - 1 then time en
            else startTimestamp out)"
    and "endTimestamp (timed_step kw_start kw_end timeKey node en out) =
           (if time en > endTimestamp out \<or> endTimestamp out = - 1 then time en
            else endTimestamp out)"
    and "readings (data (timed_step kw_start kw_end timeKey node en out)) k n d =
           readings (data out) k n d @
             (if timeKey (time en) = k \<and> node = n \<and> address en = d then [rssi en] else [])"
proof -
  have a: "\<not> (case kw_start of None \<Rightarrow> False | Some s \<Rightarrow> time en < s)"
          "\<not> (case kw_end of None \<Rightarrow> False | Some e \<Rightarrow> time en > e)"
    using assms by (auto simp: accepted_def split: option.splits)
  show "startTimestamp (timed_step kw_start kw_end timeKey node en out) =
           (if time en < startTimestamp out \<or> startTimestamp out = - 1 then time en
            else startTimestamp out)"
    unfolding timed_step_def Let_def using a by simp
  show "endTimestamp (timed_step kw_start kw_end timeKey node en out) =
           (if time en > endTimestamp out \<or> endTimestamp out = - 1 then time en
            else endTimestamp out)"
    unfolding timed_step_def Let_def using a by simp
  define byNode where "byNode = (case map_of (data out) (timeKey (time en)) of None \<Rightarrow> [] | Some m \<Rightarrow> m)"
  define byDev where "byDev = (case map_of byNode node of None \<Rightarrow> [] | Some m \<Rightarrow> m)"
  define rs where "rs = (case map_of byDev (address en) of None \<Rightarrow> [] | Some rs \<Rightarrow> rs)"
  define byDev' where "byDev' = AList.update (address en) (rs @ [rssi en]) byDev"
  define byNode' where "byNode' = AList.update node byDev' byNode"
  have new: "data (timed_step kw_start kw_end timeKey node en out) =
               AList.update (timeKey (time en)) byNode' (data out)"
    unfolding timed_step_def Let_def byNode'_def byDev'_def rs_def byDev_def byNode_def
    using a by simp
  have r1: "readings (data out) (timeKey (time en)) n' d' =
              olist (case map_of byNode n' of None \<Rightarrow> None | Some bd \<Rightarrow> map_of bd d')" for n' d'
    by (cases "map_of (data out) (timeKey (time en))") (simp_all add: readings_def byNode_def)
  have r2: "olist (case map_of byNode node of None \<Rightarrow> None | Some bd \<Rightarrow> map_of bd d') =
              olist (map_of byDev d')" for d'
    by (cases "map_of byNode node") (simp_all add: byDev_def)
  have r3: "olist (map_of byDev (address en)) = rs"
    by (simp add: rs_def olist_def)
  have n1: "readings (AList.update (timeKey (time en)) byNode' (data out)) k' n' d' =
              (if k' = timeKey (time en)
               then olist (case map_of byNode' n' of None \<Rightarrow> None | Some bd \<Rightarrow> map_of bd d')
               else readings (data out) k' n' d')" for k' n' d'
    by (simp add: readings_def AList.update_conv')
  have n2: "olist (case map_of byNode' n' of None \<Rightarrow> None | Some bd \<Rightarrow> map_of bd d') =
              (if n' = node then olist (map_of byDev' d')
               else olist (case map_of byNode n' of None \<Rightarrow> None | Some bd \<Rightarrow> map_of bd d'))" for n' d'
    by (simp add: byNode'_def AList.update_conv')
  have n3: "olist (map_of byDev' d') =
              (if d' = address en then rs @ [rssi en] else olist (map_of byDev d'))" for d'
    by (simp add: byDev'_def AList.update_conv' olist_def)
  show "readings (data (timed_step kw_start kw_end timeKey node en out)) k n d =
           readings (data out) k n d @
             (if timeKey (time en) = k \<and> node = n \<and> address en = d then [rssi en] else [])"
  proof (cases "k = timeKey (time en)")
    case False
    then show ?thesis unfolding new n1 by auto
  next
    case k: True
    show ?thesis
    proof (cases "n = node")
      case False
      then show ?thesis unfolding new n1 n2 k r1 by auto
    next
      case n: True
      show ?thesis
      proof (cases "d = address en")
        case False
        then show ?thesis unfolding new n1 n2 n3 k n r1 r2 by auto
      next
        case True
        then show ?thesis unfolding new n1 n2 n3 k n True r1 r2 r3 by simp
      qed
    qed
  qed
qed

lemma readings_fold:
  "readings (data (fold (\<lambda>(node, en). timed_step kw_start kw_end timeKey node en) recs out)) k n d =
     readings (data out) k n d @
       map (\<lambda>(node, en). rssi en)
         (filter (\<lambda>(node, en). timeKey (time en) = k \<and> node = n \<and> address en = d)
            (filter (\<lambda>(node, en). accepted kw_start kw_end (time en)) recs))"
proof (induction recs arbitrary: out)
  case Nil
  then show ?case by simp
next
  case (Cons p recs)
  obtain node en where p: "p = (node, en)" by (cases p)
  show ?case
  proof (cases "accepted kw_start kw_end (time en)")
    case True
    show ?thesis
      using Cons.IH [of "timed_step kw_start kw_end timeKey node en out"] True
      by (simp add: p timed_step_accepted(3) [OF True])
  next
    case False
    show ?thesis
      using Cons.IH [of out] False by (simp add: p timed_step_rejected)
  qed
qed

lemma stamps_fold:
  assumes "\<forall>(node, en) \<in> set recs. accepted kw_start kw_end (time en) \<longrightarrow> time en \<noteq> - 1"
      and "startTimestamp out \<noteq> - 1" "endTimestamp out \<noteq> - 1"
  shows "startTimestamp (fold (\<lambda>(node, en). timed_step kw_start kw_end timeKey node en) recs out) =
           Min (insert (startTimestamp out)
                  ((\<lambda>(node, en). time en) ` set (filter (\<lambda>(node, en). accepted kw_start kw_end (time en)) recs))) \<and>
         endTimestamp (fold (\<lambda>(node, en). timed_step kw_start kw_end timeKey node en) recs out) =
           Max (insert (endTimestamp out)
                  ((\<lambda>(node, en). time en) ` set (filter (\<lambda>(node, en). accepted kw_start kw_end (time en)) recs)))"
  using assms
proof (induction recs arbitrary: out)
  case Nil
  then show ?case by simp
next
  case (Cons p recs)
  obtain node en where p: "p = (node, en)" by (cases p)
  have rest: "\<forall>(node, en) \<in> set recs. accepted kw_start kw_end (time en) \<longrightarrow> time en \<noteq> - 1"
    using Cons.prems(1) by simp
  define T where "T = (\<lambda>(node, en). time en) ` set (filter (\<lambda>(node, en). accepted kw_start kw_end (time en)) recs)"
  have fin: "finite T" by (simp add: T_def)
  have Tp: "(\<lambda>(node, en). time en) ` set (filter (\<lambda>(node, en). accepted kw_start kw_end (time en)) (p # recs)) =
            (if accepted kw_start kw_end (time en) then insert (time en) T else T)"
    by (simp add: p T_def)
  show ?case
  proof (cases "accepted kw_start kw_end (time en)")
    case False
    show ?thesis
      using Cons.IH [OF rest Cons.prems(2,3)] False unfolding Tp T_def [symmetric]
      by (simp add: p timed_step_rejected)
  next
    case True
    let ?out = "timed_step kw_start kw_end timeKey node en out"
    have t: "time en \<noteq> - 1" using Cons.prems(1) True by (simp add: p)
    have s: "startTimestamp ?out = min (time en) (startTimestamp out)"
      using Cons.prems(2) by (simp add: timed_step_accepted(1) [OF True] min_def)
    have e: "endTimestamp ?out = max (time en) (endTimestamp out)"
      using Cons.prems(3) by (simp add: timed_step_accepted(2) [OF True] max_def)
    have s1: "startTimestamp ?out \<noteq> - 1" using s t Cons.prems(2) by (simp add: min_def)
    have e1: "endTimestamp ?out \<noteq> - 1" using e t Cons.prems(3) by (simp add: max_def)
    have ih: "startTimestamp (fold (\<lambda>(node, en). timed_step kw_start kw_end timeKey node en) recs ?out) =
                Min (insert (startTimestamp ?out) T) \<and>
              endTimestamp (fold (\<lambda>(node, en). timed_step kw_start kw_end timeKey node en) recs ?out) =
                Max (insert (endTimestamp ?out) T)"
      unfolding T_def by (rule Cons.IH [OF rest s1 e1])
    have mn: "Min (insert (min (time en) (startTimestamp out)) T) =
              Min (insert (startTimestamp out) (insert (time en) T))"
    proof (cases "T = {}")
      case True
      then show ?thesis by (simp add: min.commute)
    next
      case False
      then show ?thesis using fin by (simp add: min.assoc min.left_commute min.commute)
    qed
    have mx: "Max (insert (max (time en) (endTimestamp out)) T) =
              Max (insert (endTimestamp out) (insert (time en) T))"
    proof (cases "T = {}")
      case True
      then show ?thesis by (simp add: max.commute)
    next
      case False
      then show ?thesis using fin by (simp add: max.assoc max.left_commute max.commute)
    qed
    show ?thesis using ih True unfolding Tp s e mn mx by (simp add: p)
  qed
qed


lemma stamps_fold_initial:
  assumes "\<forall>(node, en) \<in> set recs. accepted kw_start kw_end (time en) \<longrightarrow> time en \<noteq> - 1"
      and "startTimestamp out = - 1" "endTimestamp out = - 1"
  shows "if filter (\<lambda>(node, en). accepted kw_start kw_end (time en)) recs = []
         then startTimestamp (fold (\<lambda>(node, en). timed_step kw_start kw_end timeKey node en) recs out) = - 1 \<and>
              endTimestamp (fold (\<lambda>(node, en). timed_step kw_start kw_end timeKey node en) recs out) = - 1
         else startTimestamp (fold (\<lambda>(node, en). timed_step kw_start kw_end timeKey node en) recs out) =
                Min ((\<lambda>(node, en). time en) ` set (filter (\<lambda>(node, en). accepted kw_start kw_end (time en)) recs)) \<and>
              endTimestamp (fold (\<lambda>(node, en). timed_step kw_start kw_end timeKey node en) recs out) =
                Max ((\<lambda>(node, en). time en) ` set (filter (\<lambda>(node, en). accepted kw_start kw_end (time en)) recs))"
  using assms
proof (induction recs arbitrary: out)
  case Nil
  then show ?case by simp
next
  case (Cons p recs)
  obtain node en where p: "p = (node, en)" by (cases p)
  have rest: "\<forall>(node, en) \<in> set recs. accepted kw_start kw_end (time en) \<longrightarrow> time en \<noteq> - 1"
    using Cons.prems(1) by simp
  show ?case
  proof (cases "accepted kw_start kw_end (time en)")
    case False
    show ?thesis
      using Cons.IH [OF rest Cons.prems(2,3)] False by (simp add: p timed_step_rejected)
  next
    case True
    let ?out = "timed_step kw_start kw_end timeKey node en out"
    have t: "time en \<noteq> - 1" using Cons.prems(1) True by (simp add: p)
    have s: "startTimestamp ?out = time en"
      using Cons.prems(2) by (simp add: timed_step_accepted(1) [OF True])
    have e: "endTimestamp ?out = time en"
      using Cons.prems(3) by (simp add: timed_step_accepted(2) [OF True])
    have s1: "startTimestamp ?out \<noteq> - 1" and e1: "endTimestamp ?out \<noteq> - 1"
      using s e t by simp_all
    from stamps_fold [OF rest s1 e1, of timeKey]
    show ?thesis using True unfolding s e by (simp add: p)
  qed
qed

text \<open>
  C9 (as amended). \<open>getTimedMeasurements\<close> stores exactly the readings of the records
  whose time passes the bounds (\<open>start \<le> time \<le> end\<close>, an absent bound passing every
  time), each under its time key, node and device, in the order of the input. It returns
  \<open>-1\<close> for both timestamps when no record passes, and the least and the greatest
  accepted time when some record passes and no accepted time is \<open>-1\<close>.
\<close>

theorem getTimedMeasurements_filter_range:
  "let acc = filter (\<lambda>(node, en). accepted kw_start kw_end (time en)) (all_records ds);
       out = getTimedMeasurements kw_start kw_end timeKey ds
   in (\<forall>k n d. readings (data out) k n d =
          map (\<lambda>(node, en). rssi en)
            (filter (\<lambda>(node, en). timeKey (time en) = k \<and> node = n \<and> address en = d) acc)) \<and>
      (acc = [] \<longrightarrow> startTimestamp out = - 1 \<and> endTimestamp out = - 1) \<and>
      (acc \<noteq> [] \<and> (\<forall>(node, en) \<in> set acc. time en \<noteq> - 1) \<longrightarrow>
         startTimestamp out = Min ((\<lambda>(node, en). time en) ` set acc) \<and>
         endTimestamp out = Max ((\<lambda>(node, en). time en) ` set acc))"
proof -
  let ?recs = "all_records ds"
  let ?acc = "filter (\<lambda>(node, en). accepted kw_start kw_end (time en)) ?recs"
  let ?init = "\<lparr>startTimestamp = - 1, endTimestamp = - 1, data = []\<rparr> :: 'a timed_result"
  let ?out = "getTimedMeasurements kw_start kw_end timeKey ds"
  have out: "?out = fold (\<lambda>(node, en). timed_step kw_start kw_end timeKey node en) ?recs ?init"
    by (rule getTimedMeasurements_flat)
  have rd: "readings (data ?out) k n d =
          map (\<lambda>(node, en). rssi en)
            (filter (\<lambda>(node, en). timeKey (time en) = k \<and> node = n \<and> address en = d) ?acc)" for k n d
    unfolding out readings_fold by (simp add: readings_def olist_def)
  have clean: "\<forall>(node, en) \<in> set ?recs. accepted kw_start kw_end (time en) \<longrightarrow> time en \<noteq> - 1"
    if "\<forall>(node, en) \<in> set ?acc. time en \<noteq> - 1"
    using that by auto
  have none: "startTimestamp ?out = - 1 \<and> endTimestamp ?out = - 1" if e: "?acc = []"
  proof -
    have "\<forall>(node, en) \<in> set ?acc. time en \<noteq> - 1" unfolding e by simp
    from stamps_fold_initial [OF clean [OF this], of ?init timeKey]
    show ?thesis unfolding out using e by simp
  qed
  have some: "startTimestamp ?out = Min ((\<lambda>(node, en). time en) ` set ?acc) \<and>
         endTimestamp ?out = Max ((\<lambda>(node, en). time en) ` set ?acc)"
    if ne: "?acc \<noteq> []" and c: "\<forall>(node, en) \<in> set ?acc. time en \<noteq> - 1"
  proof -
    from stamps_fold_initial [OF clean [OF c], of ?init timeKey]
    show ?thesis unfolding out using ne by simp
  qed
  show ?thesis unfolding Let_def using rd none some by blast
qed

theorem getTimedMeasurements_filter_range_witness:
  "startTimestamp (getTimedMeasurements (Some 5) (Some 30) id
      [\<lparr>startTimestamp = 0, endTimestamp = 65,
        scans = [(''A'', [\<lparr>time = 3, rssi = - 50, address = ''D''\<rparr>,
                          \<lparr>time = 10, rssi = - 60, address = ''D''\<rparr>,
                          \<lparr>time = 25, rssi = - 70, address = ''D''\<rparr>,
                          \<lparr>time = 45, rssi = - 80, address = ''D''\<rparr>])]\<rparr>]) = 10 \<and>
   endTimestamp (getTimedMeasurements (Some 5) (Some 30) id
      [\<lparr>startTimestamp = 0, endTimestamp = 65,
        scans = [(''A'', [\<lparr>time = 3, rssi = - 50, address = ''D''\<rparr>,
                          \<lparr>time = 10, rssi = - 60, address = ''D''\<rparr>,
                          \<lparr>time = 25, rssi = - 70, address = ''D''\<rparr>,
                          \<lparr>time = 45, rssi = - 80, address = ''D''\<rparr>])]\<rparr>]) = 25"
proof -
  let ?ds = "[\<lparr>startTimestamp = 0, endTimestamp = 65,
        scans = [(''A'', [\<lparr>time = 3, rssi = - 50, address = ''D''\<rparr>,
                          \<lparr>time = 10, rssi = - 60, address = ''D''\<rparr>,
                          \<lparr>time = 25, rssi = - 70, address = ''D''\<rparr>,
                          \<lparr>time = 45, rssi = - 80, address = ''D''\<rparr>])]\<rparr>]"
  have acc: "filter (\<lambda>(node, en). accepted (Some 5) (Some 30) (time en)) (all_records ?ds) =
               [(''A'', \<lparr>time = 10, rssi = - 60, address = ''D''\<rparr>),
                (''A'', \<lparr>time = 25, rssi = - 70, address = ''D''\<rparr>)]"
    by (simp add: all_records_def all_scans_def accepted_def)
  show ?thesis
    using getTimedMeasurements_filter_range [of "Some 5" "Some 30" ?ds id]
    unfolding Let_def acc by simp
qed

text \<open>
  C9 as stated fails when an accepted record has the time \<open>-1\<close>: after that record the
  running minimum is \<open>-1\<close>, which the next record takes for "not set yet", so the
  start timestamp returned for the times \<open>-1\<close> and \<open>5\<close> is \<open>5\<close>.
\<close>

theorem sentinel_time_counterexample:
  "startTimestamp (getTimedMeasurements None None id
      [\<lparr>startTimestamp = - 1, endTimestamp = 5,
        scans = [(''A'', [\<lparr>time = - 1, rssi = - 60, address = ''D''\<rparr>,
                          \<lparr>time = 5, rssi = - 61, address = ''D''\<rparr>])]\<rparr>]) = 5 \<and>
   min (- 1) (5 :: rat) = - 1"
  by code_simp

end
